theory Spec2Isabelle
  imports Complex_Main
begin

section \<open>Conventions of the embedding\<close>

text \<open>
  The simulator \<^verbatim>\<open>simulate_grn.py\<close> computes with NumPy floating-point arrays. The
  embedding reads every float as an exact real number: rounding, overflow and the
  32-bit storage of the arrays are not modelled. A float computation that leaves the
  finite reals (NumPy's \<^verbatim>\<open>inf\<close> and \<^verbatim>\<open>nan\<close>) has no real value; the model makes such a
  point explicit as the failure \<open>NotFinite\<close>, next to the exceptions that Python
  really raises. Arrays are lists, matrices are lists of rows.
\<close>

datatype error =
    ValueError
  | IndexError
  | ZeroDivisionError
  | ComplexResult
  | NotFinite

fun bind_res :: "error + 'a \<Rightarrow> ('a \<Rightarrow> error + 'b) \<Rightarrow> error + 'b" where
  "bind_res (Inl e) f = Inl e"
| "bind_res (Inr v) f = f v"

text \<open>A \<^verbatim>\<open>for\<close> loop over a list whose body may raise: the first error ends the loop.\<close>

fun for_each :: "('a \<Rightarrow> 's \<Rightarrow> error + 's) \<Rightarrow> 'a list \<Rightarrow> 's \<Rightarrow> error + 's" where
  "for_each f [] s = Inr s"
| "for_each f (x # xs) s = bind_res (f x s) (for_each f xs)"

text \<open>Mapping a fallible function over an array, left to right.\<close>

fun map_res :: "('a \<Rightarrow> error + 'b) \<Rightarrow> 'a list \<Rightarrow> error + 'b list" where
  "map_res f [] = Inr []"
| "map_res f (x # xs) =
     bind_res (f x) (\<lambda>y. bind_res (map_res f xs) (\<lambda>ys. Inr (y # ys)))"

section \<open>The Hill nonlinearity\<close>

text \<open>
  \<^verbatim>\<open>k**n\<close> on Python floats: a positive base has the real power; a zero base gives 1, 0
  or raises \<^verbatim>\<open>ZeroDivisionError\<close> according to the sign of the exponent; a negative
  base has a real power only for an integral exponent, otherwise Python returns a
  complex number.
\<close>

definition py_pow :: "real \<Rightarrow> real \<Rightarrow> error + real" where
  "py_pow k n =
     (if 0 < k then Inr (k powr n)
      else if k = 0 then
        (if n = 0 then Inr 1 else if 0 < n then Inr 0 else Inl ZeroDivisionError)
      else if n = of_int \<lfloor>n\<rfloor> then Inr (power_int k \<lfloor>n\<rfloor>)
      else Inl ComplexResult)"

text \<open>
  \<^verbatim>\<open>np.power(x_pos, n)\<close> on one entry; \<open>x_pos\<close> is never negative here. A zero entry
  raised to a negative power is \<^verbatim>\<open>inf\<close> in NumPy.
\<close>

definition np_power :: "real \<Rightarrow> real \<Rightarrow> error + real" where
  "np_power x_pos n =
     (if 0 < x_pos then Inr (x_pos powr n)
      else if n = 0 then Inr 1
      else if 0 < n then Inr 0
      else Inl NotFinite)"

definition hill_eps :: real where
  "hill_eps = 1 / 10 ^ 8"

text \<open>One entry of \<^verbatim>\<open>hill\<close>, given the value \<open>k_pow\<close> of \<^verbatim>\<open>k**n\<close>.\<close>

definition hill_entry :: "real \<Rightarrow> real \<Rightarrow> real \<Rightarrow> error + real" where
  "hill_entry k_pow n x =
     (let x_pos = max x 0 in
      bind_res (np_power x_pos n) (\<lambda>x_pow.
        if k_pow + x_pow + hill_eps = 0 then Inl NotFinite
        else Inr (x_pow / (k_pow + x_pow + hill_eps))))"

text \<open>\<^verbatim>\<open>hill\<close> on a scalar and on a matrix; \<^verbatim>\<open>k**n\<close> is computed once per call.\<close>

definition hill :: "real \<Rightarrow> real \<Rightarrow> real \<Rightarrow> error + real" where
  "hill x k n = bind_res (py_pow k n) (\<lambda>k_pow. hill_entry k_pow n x)"

definition hill_mat :: "real list list \<Rightarrow> real \<Rightarrow> real \<Rightarrow> error + real list list" where
  "hill_mat x k n =
     bind_res (py_pow k n) (\<lambda>k_pow. map_res (map_res (hill_entry k_pow n)) x)"

section \<open>The step count per timepoint\<close>



section \<open>The gene catalogue\<close>

text \<open>The decimal numeral that an f-string prints for a non-negative integer.\<close>

definition digit_char :: "nat \<Rightarrow> char" where
  "digit_char d = char_of (48 + d)"

function str_nat :: "nat \<Rightarrow> string" where
  "str_nat n = (if n < 10 then [digit_char n] else str_nat (n div 10) @ [digit_char (n mod 10)])"
  by pat_completeness auto
termination
  by (relation "measure id") auto

declare str_nat.simps [simp del]

text \<open>
  The dictionary \<^verbatim>\<open>groups\<close>, as a record of the seven keys that the rest of the program
  reads. (\<^verbatim>\<open>add_group\<close> also stores each list under its lower-cased prefix; those
  entries are never read.)
\<close>

record groups =
  prog :: "nat list"
  lineage :: "nat list"
  ligand :: "nat list"
  receptor :: "nat list"
  target :: "nat list"
  housekeeping :: "nat list"
  other :: "nat list"

text \<open>
  \<^verbatim>\<open>add_group\<close>: appends \<open>count\<close> names \<open>prefix1, prefix2, ...\<close> to the list of names and
  returns their indices with the extended list.
\<close>

definition add_group :: "string \<Rightarrow> nat \<Rightarrow> string list \<Rightarrow> nat list \<times> string list" where
  "add_group prefix count names =
     (let start = length names in
      (map (\<lambda>i. start + i - 1) [1..<count + 1],
       names @ map (\<lambda>i. prefix @ str_nat i) [1..<count + 1]))"

definition build_gene_names :: "string list \<times> groups" where
  "build_gene_names =
     (let names = [];
          (g_prog, names) = add_group ''TF_PROG_'' 4 names;
          (g_lineage, names) = add_group ''TF_LIN'' 12 names;
          (g_ligand, names) = add_group ''LIG_'' 20 names;
          (g_receptor, names) = add_group ''REC_'' 20 names;
          (g_target, names) = add_group ''TARG_'' 80 names;
          (g_housekeeping, names) = add_group ''HK_'' 50 names;
          (g_other, names) = add_group ''OTHER_'' 14 names
      in (names,
          \<lparr>prog = g_prog, lineage = g_lineage, ligand = g_ligand, receptor = g_receptor,
           target = g_target, housekeeping = g_housekeeping, other = g_other\<rparr>))"

text \<open>The Python slice \<^verbatim>\<open>xs[a:b]\<close> for non-negative bounds: it never raises.\<close>

definition py_slice :: "'a list \<Rightarrow> nat \<Rightarrow> nat \<Rightarrow> 'a list" where
  "py_slice xs a b = take (b - a) (drop a xs)"

text \<open>
  The TF genes of one lineage:
  \<^verbatim>\<open>lineage[lin_idx * lineage_tfs_per : (lin_idx + 1) * lineage_tfs_per]\<close>.
\<close>

definition lineage_block :: "nat list \<Rightarrow> nat \<Rightarrow> nat \<Rightarrow> nat list" where
  "lineage_block lineage_indices lineage_tfs_per lin_idx =
     py_slice lineage_indices (lin_idx * lineage_tfs_per) ((lin_idx + 1) * lineage_tfs_per)"

text \<open>The constants that \<^verbatim>\<open>main\<close> fixes.\<close>

definition main_n_lineages :: nat where
  "main_n_lineages = 6"

definition main_lineage_tfs_per :: nat where
  "main_lineage_tfs_per = 2"

section \<open>The morphogen bias of a sample\<close>

text \<open>
  The assignment \<^verbatim>\<open>a[idxs] = v\<close> with a list of indices: an index outside the array
  raises.
\<close>

definition assign_at :: "real list \<Rightarrow> nat list \<Rightarrow> real \<Rightarrow> error + real list" where
  "assign_at a idxs v =
     (if list_all (\<lambda>i. i < length a) idxs
      then Inr (fold (\<lambda>i b. b[i := v]) idxs a)
      else Inl IndexError)"

text \<open>
  Lines 410 to 416 of \<^verbatim>\<open>main\<close>. The vector \<open>lineage_bias\<close> is the outcome of
  \<^verbatim>\<open>rng.dirichlet(np.ones(n_lineages))\<close>, one weight per lineage.
\<close>

definition sample_morphogen ::
  "groups \<Rightarrow> nat \<Rightarrow> nat \<Rightarrow> nat \<Rightarrow> real \<Rightarrow> real list \<Rightarrow> error + real list" where
  "sample_morphogen grp n_genes n_lineages lineage_tfs_per morphogen_scale lineage_bias =
     for_each
       (\<lambda>lin_idx morphogen.
          let tf_indices = lineage_block (lineage grp) lineage_tfs_per lin_idx
          in if lin_idx < length lineage_bias
             then assign_at morphogen tf_indices (morphogen_scale * lineage_bias ! lin_idx)
             else Inl IndexError)
       [0..<n_lineages]
       (replicate n_genes 0)"

definition main_morphogen :: "real \<Rightarrow> real list \<Rightarrow> error + real list" where
  "main_morphogen morphogen_scale lineage_bias =
     (let (gene_names, grp) = build_gene_names
      in sample_morphogen grp (length gene_names) main_n_lineages main_lineage_tfs_per
           morphogen_scale lineage_bias)"

section \<open>Lineage scoring and labelling\<close>











section \<open>The random source\<close>

text \<open>
  The generator \<^verbatim>\<open>rng\<close> is an oracle: a position in streams of raw outcomes that the
  theorems leave arbitrary. Every call reads the outcome at the current position and
  advances it. A raw uniform outcome is reduced to \<open>[0, 1)\<close> and a raw integer outcome
  to the requested range, so that every state of the oracle yields values that NumPy
  can return, and every such value is yielded by some state.
\<close>

record rng =
  pos :: nat
  unit_draws :: "nat \<Rightarrow> real"
  int_draws :: "nat \<Rightarrow> nat"
  normal_draws :: "nat \<Rightarrow> real"
  choice_draws :: "nat \<Rightarrow> nat list"

definition advance :: "nat \<Rightarrow> rng \<Rightarrow> rng" where
  "advance k g = g\<lparr>pos := pos g + k\<rparr>"

text \<open>\<^verbatim>\<open>rng.random()\<close>: a float in \<open>[0, 1)\<close>.\<close>

definition rng_random :: "rng \<Rightarrow> real \<times> rng" where
  "rng_random g = (frac (unit_draws g (pos g)), advance 1 g)"

text \<open>\<^verbatim>\<open>rng.uniform(low, high)\<close>: \<open>low + (high - low) * u\<close> for a uniform \<open>u\<close> in \<open>[0, 1)\<close>.\<close>

definition rng_uniform :: "real \<Rightarrow> real \<Rightarrow> rng \<Rightarrow> real \<times> rng" where
  "rng_uniform low high g = (low + (high - low) * frac (unit_draws g (pos g)), advance 1 g)"

text \<open>\<^verbatim>\<open>rng.integers(low, high)\<close>: an integer in \<open>[low, high)\<close>; an empty range raises.\<close>

definition rng_integers :: "nat \<Rightarrow> nat \<Rightarrow> rng \<Rightarrow> error + nat \<times> rng" where
  "rng_integers low high g =
     (if high \<le> low then Inl ValueError
      else Inr (low + int_draws g (pos g) mod (high - low), advance 1 g))"

section \<open>Network construction\<close>

record edge =
  edge_source :: string
  edge_target :: string
  edge_weight :: real
  edge_type :: string

text \<open>
  The local state of \<^verbatim>\<open>build_grn\<close>: the coordinate lists of the sparse matrix, the
  edge list, and the generator that the construction draws from.
\<close>

record builder =
  rows :: "nat list"
  cols :: "nat list"
  data :: "real list"
  edge_list :: "edge list"
  gen :: rng

text \<open>\<^verbatim>\<open>add_edge\<close>: \<^verbatim>\<open>gene_names[src]\<close> raises for an index outside the catalogue.\<close>

definition add_edge ::
  "string list \<Rightarrow> nat \<Rightarrow> nat \<Rightarrow> real \<Rightarrow> string \<Rightarrow> builder \<Rightarrow> error + builder" where
  "add_edge gene_names src dst w label b =
     (if src < length gene_names \<and> dst < length gene_names
      then Inr (b\<lparr>rows := rows b @ [dst],
                  cols := cols b @ [src],
                  data := data b @ [w],
                  edge_list := edge_list b @
                    [\<lparr>edge_source = gene_names ! src, edge_target = gene_names ! dst,
                      edge_weight = w, edge_type = label\<rparr>]\<rparr>)
      else Inl IndexError)"

text \<open>Lines 67 to 72: self-activation and mutual activation of the program TFs.\<close>

definition prog_edges :: "string list \<Rightarrow> nat list \<Rightarrow> builder \<Rightarrow> error + builder" where
  "prog_edges gene_names g_prog =
     for_each (\<lambda>i b.
       bind_res (add_edge gene_names i i (2/10) ''prog_self'' b)
         (for_each (\<lambda>j b.
            if i = j then Inr b
            else
              let (u, g) = rng_random (gen b)
              in add_edge gene_names j i (35/100 + 1/10 * u) ''prog_mutual'' (b\<lparr>gen := g\<rparr>))
          g_prog))
     g_prog"

text \<open>Lines 74 to 76: every program TF activates every lineage TF.\<close>

definition prog_to_lineage_edges ::
  "string list \<Rightarrow> nat list \<Rightarrow> nat list \<Rightarrow> builder \<Rightarrow> error + builder" where
  "prog_to_lineage_edges gene_names g_prog g_lineage =
     for_each (\<lambda>lin_idx.
       for_each (\<lambda>prog_idx. add_edge gene_names prog_idx lin_idx (15/100) ''prog_to_lineage'')
         g_prog)
     g_lineage"

text \<open>Lines 78 to 100: the edges of one lineage block.\<close>

definition lineage_block_edges ::
  "string list \<Rightarrow> nat list \<Rightarrow> nat list \<Rightarrow> nat \<Rightarrow> nat \<Rightarrow> nat \<Rightarrow> builder \<Rightarrow> error + builder" where
  "lineage_block_edges gene_names g_prog g_lineage n_lineages lineage_tfs_per lin_block b0 =
     (let tf_indices = lineage_block g_lineage lineage_tfs_per lin_block in
      bind_res
        (for_each (\<lambda>tf. add_edge gene_names tf tf (6/10) ''lineage_self'') tf_indices b0)
      (\<lambda>b1. bind_res
        (if length tf_indices = 2
         then bind_res
                (add_edge gene_names (tf_indices ! 0) (tf_indices ! 1) (4/10)
                   ''lineage_partner'' b1)
                (add_edge gene_names (tf_indices ! 1) (tf_indices ! 0) (4/10)
                   ''lineage_partner'')
         else Inr b1)
      (\<lambda>b2. bind_res
        (for_each (\<lambda>tf.
           for_each (\<lambda>other_block b.
             if other_block = lin_block then Inr b
             else
               for_each (\<lambda>other_tf.
                   add_edge gene_names other_tf tf (- (5/10)) ''lineage_inhibit'')
                 (lineage_block g_lineage lineage_tfs_per other_block) b)
           [0..<n_lineages])
         tf_indices b2)
      (for_each (\<lambda>tf.
         for_each (\<lambda>prog_idx.
             add_edge gene_names tf prog_idx (- (3/10)) ''lineage_repress_prog'')
           g_prog)
       tf_indices))))"

text \<open>
  \<^verbatim>\<open>np.array_split(ary, n)\<close>: \<open>n\<close> contiguous sections, the first \<open>len mod n\<close> of them one
  element longer; no section count raises.
\<close>

fun split_sizes :: "'a list \<Rightarrow> nat list \<Rightarrow> 'a list list" where
  "split_sizes xs [] = []"
| "split_sizes xs (k # ks) = take k xs # split_sizes (drop k xs) ks"

definition array_split :: "'a list \<Rightarrow> nat \<Rightarrow> error + 'a list list" where
  "array_split ary n =
     (if n = 0 then Inl ValueError
      else
        let each_section = length ary div n;
            extras = length ary mod n
        in Inr (split_sizes ary
                  (replicate extras (each_section + 1) @ replicate (n - extras) each_section)))"

text \<open>
  Lines 102 to 118: the TFs of lineage \<open>lin_block\<close> activate the \<open>lin_block\<close>-th section
  of a gene group (the targets with weight 0.7, the ligands with weight 0.6).
\<close>

definition lineage_to_group_edges ::
  "string list \<Rightarrow> nat list \<Rightarrow> nat \<Rightarrow> nat list \<Rightarrow> nat \<Rightarrow> real \<Rightarrow> string
     \<Rightarrow> builder \<Rightarrow> error + builder" where
  "lineage_to_group_edges gene_names g_lineage lineage_tfs_per members n_lineages w label b =
     bind_res (array_split members n_lineages) (\<lambda>splits.
       for_each (\<lambda>(lin_block, subset).
           for_each (\<lambda>tf.
               for_each (\<lambda>member. add_edge gene_names tf member w label) subset)
             (lineage_block g_lineage lineage_tfs_per lin_block))
         (zip [0..<length splits] splits) b)"

text \<open>Lines 120 to 122: every program TF activates every receptor.\<close>

definition prog_to_receptor_edges ::
  "string list \<Rightarrow> nat list \<Rightarrow> nat list \<Rightarrow> builder \<Rightarrow> error + builder" where
  "prog_to_receptor_edges gene_names g_prog g_receptor =
     for_each (\<lambda>prog_idx.
       for_each (\<lambda>rec. add_edge gene_names prog_idx rec (2/10) ''prog_to_receptor'')
         g_receptor)
     g_prog"

text \<open>
  Lines 125 to 129, one iteration of the loop of random edges: a draw of equal source
  and target is skipped, and then no weight is drawn.
\<close>

definition random_edge :: "string list \<Rightarrow> builder \<Rightarrow> error + builder" where
  "random_edge gene_names b =
     (let n_genes = length gene_names in
      bind_res (rng_integers 0 n_genes (gen b)) (\<lambda>(src, g1).
      bind_res (rng_integers 0 n_genes g1) (\<lambda>(dst, g2).
        if src = dst then Inr (b\<lparr>gen := g2\<rparr>)
        else
          let (w, g3) = rng_uniform (- (5/100)) (5/100) g2
          in add_edge gene_names src dst w ''random'' (b\<lparr>gen := g3\<rparr>))))"

definition random_edges :: "string list \<Rightarrow> builder \<Rightarrow> error + builder" where
  "random_edges gene_names = for_each (\<lambda>_. random_edge gene_names) [0..<200]"

text \<open>All the structured rules, in the order of the source.\<close>

definition structured_edges ::
  "string list \<Rightarrow> groups \<Rightarrow> nat \<Rightarrow> nat \<Rightarrow> builder \<Rightarrow> error + builder" where
  "structured_edges gene_names grp n_lineages lineage_tfs_per b0 =
     bind_res (prog_edges gene_names (prog grp) b0) (\<lambda>b1.
     bind_res (prog_to_lineage_edges gene_names (prog grp) (lineage grp) b1) (\<lambda>b2.
     bind_res (for_each
                 (lineage_block_edges gene_names (prog grp) (lineage grp) n_lineages
                    lineage_tfs_per)
                 [0..<n_lineages] b2) (\<lambda>b3.
     bind_res (lineage_to_group_edges gene_names (lineage grp) lineage_tfs_per (target grp)
                 n_lineages (7/10) ''lineage_to_target'' b3) (\<lambda>b4.
     bind_res (lineage_to_group_edges gene_names (lineage grp) lineage_tfs_per (ligand grp)
                 n_lineages (6/10) ''lineage_to_ligand'' b4) (\<lambda>b5.
     prog_to_receptor_edges gene_names (prog grp) (receptor grp) b5)))))"

text \<open>
  \<^verbatim>\<open>sp.csr_matrix((data, (rows, cols)), shape=(n, n))\<close>, as the dense matrix that
  \<^verbatim>\<open>toarray\<close> shows: SciPy adds every coordinate entry to its cell, so that entries of
  the same cell accumulate. A coordinate outside the shape raises.
\<close>

definition add_entry :: "nat \<times> nat \<times> real \<Rightarrow> real list list \<Rightarrow> real list list" where
  "add_entry = (\<lambda>(r, c, d) m. m[r := (m ! r)[c := m ! r ! c + d]])"

definition csr_matrix ::
  "real list \<Rightarrow> nat list \<Rightarrow> nat list \<Rightarrow> nat \<Rightarrow> error + real list list" where
  "csr_matrix dat rws cls n =
     (if length rws = length dat \<and> length cls = length dat
         \<and> list_all (\<lambda>r. r < n) rws \<and> list_all (\<lambda>c. c < n) cls
      then Inr (fold add_entry (zip rws (zip cls dat)) (replicate n (replicate n 0)))
      else Inl ValueError)"

text \<open>A parameter vector: zeros, then one value per gene group, in the order of the source.\<close>

definition group_vector ::
  "groups \<Rightarrow> nat \<Rightarrow> real \<Rightarrow> real \<Rightarrow> real \<Rightarrow> real \<Rightarrow> real \<Rightarrow> real \<Rightarrow> real
     \<Rightarrow> error + real list" where
  "group_vector grp n_genes v_hk v_lig v_rec v_targ v_prog v_lin v_other =
     bind_res (assign_at (replicate n_genes 0) (housekeeping grp) v_hk) (\<lambda>a.
     bind_res (assign_at a (ligand grp) v_lig) (\<lambda>a.
     bind_res (assign_at a (receptor grp) v_rec) (\<lambda>a.
     bind_res (assign_at a (target grp) v_targ) (\<lambda>a.
     bind_res (assign_at a (prog grp) v_prog) (\<lambda>a.
     bind_res (assign_at a (lineage grp) v_lin) (\<lambda>a.
     assign_at a (other grp) v_other))))))"

record grn =
  grn_W :: "real list list"
  grn_bias :: "real list"
  grn_decay :: "real list"
  grn_noise :: "real list"
  grn_edges :: "edge list"

text \<open>\<^verbatim>\<open>build_grn\<close>; the generator is shared with the caller, so its new state is returned.\<close>

definition build_grn ::
  "rng \<Rightarrow> string list \<Rightarrow> groups \<Rightarrow> nat \<Rightarrow> nat \<Rightarrow> error + grn \<times> rng" where
  "build_grn g gene_names grp n_lineages lineage_tfs_per =
     (let n_genes = length gene_names in
      bind_res (structured_edges gene_names grp n_lineages lineage_tfs_per
                  \<lparr>rows = [], cols = [], data = [], edge_list = [], gen = g\<rparr>) (\<lambda>b1.
      bind_res (random_edges gene_names b1) (\<lambda>b.
      bind_res (csr_matrix (data b) (rows b) (cols b) n_genes) (\<lambda>w.
      bind_res (group_vector grp n_genes (6/10) (2/10) (2/10) (5/100) (5/100) (5/100) (1/10))
        (\<lambda>bias.
      bind_res (group_vector grp n_genes (1/10) (2/10) (2/10) (2/10) (3/10) (3/10) (2/10))
        (\<lambda>decay.
      bind_res (group_vector grp n_genes (5/100) (6/100) (6/100) (8/100) (1/10) (1/10) (8/100))
        (\<lambda>noise.
        Inr (\<lparr>grn_W = w, grn_bias = bias, grn_decay = decay, grn_noise = noise,
               grn_edges = edge_list b\<rparr>, gen b))))))))"

section \<open>Notions used to state the properties of the network\<close>

text \<open>A catalogue and its groups fit when every group index names a gene.\<close>

definition groups_ok :: "string list \<Rightarrow> groups \<Rightarrow> bool" where
  "groups_ok gene_names grp \<longleftrightarrow>
     list_all (\<lambda>i. i < length gene_names)
       (prog grp @ lineage grp @ ligand grp @ receptor grp @ target grp
          @ housekeeping grp @ other grp)"

definition is_random :: "edge \<Rightarrow> bool" where
  "is_random e \<longleftrightarrow> edge_type e = ''random''"

text \<open>
  The number of iterations, among \<open>k\<close> iterations of the loop of random edges started
  in the generator state \<open>g\<close> over \<open>n\<close> genes, that draw the same gene as source and as
  target. Such an iteration consumes two outcomes, any other one three.
\<close>

fun self_draws :: "nat \<Rightarrow> rng \<Rightarrow> nat \<Rightarrow> nat" where
  "self_draws n g 0 = 0"
| "self_draws n g (Suc k) =
     (if int_draws g (pos g) mod n = int_draws g (pos g + 1) mod n
      then 1 + self_draws n (advance 2 g) k
      else self_draws n (advance 3 g) k)"

text \<open>
  The coordinate entries of a builder, what ties the entry of one \<^verbatim>\<open>add_edge\<close> call to
  the edge record of the same call, and the invariant of the construction: the lists
  grow together, \<open>k\<close> edges are tagged as random, and the generator has only advanced
  from its initial state \<open>g0\<close>.
\<close>

definition coo :: "builder \<Rightarrow> (nat \<times> nat \<times> real) list" where
  "coo b = zip (rows b) (zip (cols b) (data b))"

definition edge_rel :: "string list \<Rightarrow> nat \<times> nat \<times> real \<Rightarrow> edge \<Rightarrow> bool" where
  "edge_rel gene_names = (\<lambda>(r, c, d) e.
     r < length gene_names \<and> c < length gene_names
     \<and> edge_source e = gene_names ! c \<and> edge_target e = gene_names ! r \<and> edge_weight e = d
     \<and> (is_random e \<longrightarrow> r \<noteq> c \<and> - (5/100) \<le> d \<and> d < 5/100))"

definition builder_inv :: "string list \<Rightarrow> rng \<Rightarrow> nat \<Rightarrow> builder \<Rightarrow> bool" where
  "builder_inv gene_names g0 k b \<longleftrightarrow>
     length (rows b) = length (data b) \<and> length (cols b) = length (data b)
     \<and> list_all2 (edge_rel gene_names) (coo b) (edge_list b)
     \<and> length (filter is_random (edge_list b)) = k
     \<and> (\<exists>j. gen b = advance j g0)"

text \<open>A command that, from every state satisfying \<open>I\<close>, returns a state satisfying \<open>I\<close>.\<close>

definition maintains :: "('s \<Rightarrow> bool) \<Rightarrow> ('s \<Rightarrow> error + 's) \<Rightarrow> bool" where
  "maintains I f \<longleftrightarrow> (\<forall>s. I s \<longrightarrow> (\<exists>s'. f s = Inr s' \<and> I s'))"

text \<open>
  The sum of the weights of all the edges added from gene \<open>s\<close> to gene \<open>t\<close>, read off the
  exported edge list.
\<close>

definition edge_weight_sum :: "string list \<Rightarrow> edge list \<Rightarrow> nat \<Rightarrow> nat \<Rightarrow> real" where
  "edge_weight_sum gene_names es s t =
     sum_list (map edge_weight
       (filter (\<lambda>e. edge_source e = gene_names ! s \<and> edge_target e = gene_names ! t) es))"

text \<open>A state of the generator all of whose raw outcomes are zero, used in examples.\<close>

definition zero_rng :: rng where
  "zero_rng = \<lparr>pos = 0, unit_draws = (\<lambda>_. 0), int_draws = (\<lambda>_. 0),
                normal_draws = (\<lambda>_. 0), choice_draws = (\<lambda>_. [])\<rparr>"

section \<open>Simulation of one sample\<close>

subsection \<open>Array operations\<close>

text \<open>\<^verbatim>\<open>np.clip(x, lo, hi)\<close> is \<^verbatim>\<open>minimum(maximum(x, lo), hi)\<close>, entry by entry.\<close>

definition clip :: "real \<Rightarrow> real \<Rightarrow> real \<Rightarrow> real" where
  "clip lo hi v = min (max v lo) hi"

definition clip_mat :: "real list list \<Rightarrow> real \<Rightarrow> real \<Rightarrow> real list list" where
  "clip_mat x lo hi = map (map (clip lo hi)) x"

text \<open>The transpose of a matrix with \<open>n\<close> columns, and the product \<^verbatim>\<open>a @ b\<close> for a matrix \<open>b\<close> with \<open>n\<close> columns.\<close>

definition dense_transpose :: "nat \<Rightarrow> real list list \<Rightarrow> real list list" where
  "dense_transpose n m = map (\<lambda>j. map (\<lambda>row. row ! j) m) [0..<n]"

definition matmul :: "real list list \<Rightarrow> real list list \<Rightarrow> nat \<Rightarrow> real list list" where
  "matmul a b n =
     map (\<lambda>row. map (\<lambda>j. sum_list (map2 (\<lambda>v b_row. v * b_row ! j) row b)) [0..<n]) a"

text \<open>
  \<^verbatim>\<open>rng.normal(loc, scale, size=(n_rows, n_cols))\<close> with one scale per column: entry
  \<open>(r, c)\<close> is \<open>loc + scale[c] * z\<close> for the standard normal outcome \<open>z\<close> at its position.
  A negative scale raises.
\<close>

definition rng_normal ::
  "real \<Rightarrow> real list \<Rightarrow> nat \<Rightarrow> rng \<Rightarrow> error + real list list \<times> rng" where
  "rng_normal loc scales n_rows g =
     (if list_all (\<lambda>s. 0 \<le> s) scales
      then Inr (map (\<lambda>r. map (\<lambda>c. loc + scales ! c * normal_draws g (pos g + r * length scales + c))
                            [0..<length scales])
                  [0..<n_rows],
                advance (n_rows * length scales) g)
      else Inl ValueError)"

text \<open>
  \<^verbatim>\<open>rng.choice(m, size=k, replace=False)\<close>: \<open>k\<close> different values below \<open>m\<close>, here the
  first \<open>k\<close> entries of an arrangement of \<open>0, ..., m - 1\<close> that the raw outcome selects.
\<close>

definition rng_choice :: "nat \<Rightarrow> nat \<Rightarrow> rng \<Rightarrow> nat list \<times> rng" where
  "rng_choice m k g =
     (take k (remdups (map (\<lambda>v. v mod m) (choice_draws g (pos g)) @ [0..<m])), advance 1 g)"

text \<open>
  The assignment \<^verbatim>\<open>x[:, idxs] = vals\<close> of one column of \<open>vals\<close> per index; an index
  outside the \<open>n_cols\<close> columns of \<open>x\<close> raises.
\<close>

definition set_cols ::
  "real list list \<Rightarrow> nat \<Rightarrow> nat list \<Rightarrow> real list list \<Rightarrow> error + real list list" where
  "set_cols x n_cols idxs vals =
     (if list_all (\<lambda>i. i < n_cols) idxs
      then Inr (map2 (\<lambda>row vrow. fold (\<lambda>(i, v) r. r[i := v]) (zip idxs vrow) row) x vals)
      else Inl IndexError)"

text \<open>
  \<^verbatim>\<open>a.mean(axis=0)\<close> of a matrix with \<open>n_cols\<close> columns. (Over no rows NumPy yields
  \<^verbatim>\<open>nan\<close> entries; they meet no row of the sample, and the value of the model there
  is immaterial.)
\<close>

definition mean_axis0 :: "real list list \<Rightarrow> nat \<Rightarrow> real list" where
  "mean_axis0 a n_cols =
     map (\<lambda>j. sum_list (map (\<lambda>row. row ! j) a) / real (length a)) [0..<n_cols]"

subsection \<open>Initial state and neighbours\<close>

text \<open>Lines 233 to 253: per-group Gaussian initial values, clipped.\<close>

definition init_group ::
  "nat \<Rightarrow> nat \<Rightarrow> nat list \<Rightarrow> real \<Rightarrow> real \<Rightarrow> real list list \<times> rng
     \<Rightarrow> error + real list list \<times> rng" where
  "init_group n_cells n_genes idxs loc scale = (\<lambda>(x, g).
     bind_res (rng_normal loc (replicate (length idxs) scale) n_cells g) (\<lambda>(vals, g').
     bind_res (set_cols x n_genes idxs vals) (\<lambda>x'. Inr (x', g'))))"

definition initial_state ::
  "rng \<Rightarrow> nat \<Rightarrow> nat \<Rightarrow> groups \<Rightarrow> real \<Rightarrow> error + real list list \<times> rng" where
  "initial_state g n_cells n_genes grp x_max =
     bind_res (init_group n_cells n_genes (prog grp) (15/10) (1/10)
                 (replicate n_cells (replicate n_genes 0), g)) (\<lambda>s.
     bind_res (init_group n_cells n_genes (lineage grp) (1/10) (5/100) s) (\<lambda>s.
     bind_res (init_group n_cells n_genes (ligand grp) (2/10) (5/100) s) (\<lambda>s.
     bind_res (init_group n_cells n_genes (receptor grp) (2/10) (5/100) s) (\<lambda>s.
     bind_res (init_group n_cells n_genes (target grp) (1/10) (5/100) s) (\<lambda>s.
     bind_res (init_group n_cells n_genes (housekeeping grp) 1 (1/10) s) (\<lambda>s.
     bind_res (init_group n_cells n_genes (other grp) (1/10) (5/100) s) (\<lambda>(x, g').
       Inr (clip_mat x 0 x_max, g'))))))))"

text \<open>
  Lines 264 to 274: the neighbours of every cell, drawn once; \<open>None\<close> when neighbour
  mode is off, no neighbour is requested, or the sample has at most one cell.
\<close>

fun draw_neighbors :: "nat \<Rightarrow> nat \<Rightarrow> nat list \<Rightarrow> rng \<Rightarrow> nat list list \<times> rng" where
  "draw_neighbors n_cells k [] g = ([], g)"
| "draw_neighbors n_cells k (i # cells) g =
     (let (choices, g1) = rng_choice (n_cells - 1) k g;
          choices = map (\<lambda>c. if i \<le> c then c + 1 else c) choices;
          (rest, g2) = draw_neighbors n_cells k cells g1
      in (choices # rest, g2))"

definition select_neighbors ::
  "string \<Rightarrow> int \<Rightarrow> nat \<Rightarrow> rng \<Rightarrow> nat list list option \<times> rng" where
  "select_neighbors neighbor_mode neighbor_k n_cells g =
     (if neighbor_mode = ''random'' then
        (if neighbor_k \<le> 0 \<or> n_cells \<le> 1 then (None, g)
         else
           let k = min (nat neighbor_k) (n_cells - 1);
               (idx, g') = draw_neighbors n_cells k [0..<n_cells] g
           in (Some idx, g'))
      else (None, g))"

subsection \<open>One step\<close>

text \<open>Line 278, first term: \<^verbatim>\<open>h @ W\<close> with \<^verbatim>\<open>W = grn["W"].transpose().toarray()\<close>.\<close>

definition regulatory_input :: "real list list \<Rightarrow> grn \<Rightarrow> real list list" where
  "regulatory_input h net =
     (let n_genes = length (grn_bias net)
      in matmul h (dense_transpose n_genes (grn_W net)) n_genes)"

text \<open>
  Lines 280 to 285: the ligand availability of every cell. Without neighbours it
  is the mean over the cells of \<^verbatim>\<open>max(x[:, lig_idx], 0)\<close>, the same for every cell; with
  neighbours it mixes the mean over the neighbours of the cell with that global
  mean.
\<close>

definition ligand_positive :: "real list list \<Rightarrow> nat list \<Rightarrow> real list list" where
  "ligand_positive x lig_idx = map (\<lambda>row. map (\<lambda>i. max (row ! i) 0) lig_idx) x"

definition ligand_availability ::
  "real list list \<Rightarrow> nat list \<Rightarrow> nat list list option \<Rightarrow> real \<Rightarrow> real list list" where
  "ligand_availability x lig_idx neighbor_idx neighbor_mix =
     (case neighbor_idx of
        None \<Rightarrow>
          let ligand_mean = mean_axis0 (ligand_positive x lig_idx) (length lig_idx)
          in map (\<lambda>_. ligand_mean) x
      | Some idx \<Rightarrow>
          let global_lig = mean_axis0 (ligand_positive x lig_idx) (length lig_idx)
          in map (\<lambda>nb.
               let neighbor_lig =
                     mean_axis0 (ligand_positive (map (\<lambda>c. x ! c) nb) lig_idx) (length lig_idx)
               in map2 (\<lambda>nl gl. neighbor_mix * nl + (1 - neighbor_mix) * gl)
                    neighbor_lig global_lig)
               idx)"

record sim_params =
  p_n_cells :: nat
  p_n_timepoints :: nat
  p_dt :: real
  p_steps_per_tp :: int
  p_grn :: grn
  p_ligand_effects :: "real list list"
  p_groups :: groups
  p_morphogen :: "real list"
  p_x_max :: real
  p_hill_k :: real
  p_hill_n :: real
  p_neighbor_mode :: string
  p_neighbor_k :: int
  p_neighbor_mix :: real

text \<open>
  Lines 277 to 293: the update of the latent state. The square root of a negative
  step size is \<^verbatim>\<open>nan\<close>, and so is then every entry of the noise term.
\<close>

definition update_state ::
  "sim_params \<Rightarrow> nat list list option \<Rightarrow> real list list \<Rightarrow> rng
     \<Rightarrow> error + real list list \<times> rng" where
  "update_state p neighbor_idx x g =
     (let net = p_grn p;
          n_genes = length (grn_bias net);
          lig_idx = ligand (p_groups p);
          rec_idx = receptor (p_groups p)
      in
      bind_res (hill_mat x (p_hill_k p) (p_hill_n p)) (\<lambda>h.
        let reg = regulatory_input h net;
            f = map2 (\<lambda>reg_row x_row.
                  map (\<lambda>j. reg_row ! j + grn_bias net ! j - grn_decay net ! j * x_row ! j)
                    [0..<n_genes])
                  reg x;
            ligand_mean = ligand_availability x lig_idx neighbor_idx (p_neighbor_mix p)
        in
        bind_res (hill_mat (map (\<lambda>row. map (\<lambda>i. row ! i) rec_idx) x) (p_hill_k p) (p_hill_n p))
          (\<lambda>receptor_act.
        let signal = map2 (map2 (*)) receptor_act ligand_mean;
            g_signal = map (\<lambda>s_row.
                  map (\<lambda>e_row. sum_list (map2 (*) s_row e_row)) (p_ligand_effects p))
                signal;
            deriv = map2 (\<lambda>f_row gs_row.
                  map (\<lambda>j. f_row ! j + gs_row ! j + p_morphogen p ! j) [0..<n_genes])
                  f g_signal
        in
        bind_res (rng_normal 0 (grn_noise net) (length x) g) (\<lambda>(z, g').
          if p_dt p < 0 \<and> x \<noteq> [] \<and> 0 < n_genes then Inl NotFinite
          else
            let noise_term = map (map (\<lambda>v. v * sqrt (p_dt p))) z;
                x' = map2 (\<lambda>x_row (d_row, n_row).
                       map (\<lambda>j. x_row ! j + p_dt p * d_row ! j + n_row ! j) [0..<n_genes])
                       x (zip deriv noise_term)
            in Inr (clip_mat x' 0 (p_x_max p), g')))))"

subsection \<open>The loop and the snapshots\<close>

text \<open>The assignment \<^verbatim>\<open>snapshots[:, idx, :] = x\<close>; an index outside the timepoints raises.\<close>

definition set_snapshot ::
  "real list list list \<Rightarrow> nat \<Rightarrow> nat \<Rightarrow> real list list \<Rightarrow> error + real list list list" where
  "set_snapshot snapshots n_timepoints idx x =
     (if idx < n_timepoints
      then Inr (map2 (\<lambda>snap x_row. snap[idx := x_row]) snapshots x)
      else Inl IndexError)"

record sim_state =
  st_x :: "real list list"
  st_snapshots :: "real list list list"
  st_snapshot_idx :: nat
  st_gen :: rng

definition sim_step ::
  "sim_params \<Rightarrow> nat list list option \<Rightarrow> nat \<Rightarrow> sim_state \<Rightarrow> error + sim_state" where
  "sim_step p neighbor_idx step s =
     bind_res (update_state p neighbor_idx (st_x s) (st_gen s)) (\<lambda>(x', g').
       if (int step + 1) mod p_steps_per_tp p = 0
       then bind_res (set_snapshot (st_snapshots s) (p_n_timepoints p) (st_snapshot_idx s) x')
              (\<lambda>snaps. Inr \<lparr>st_x = x', st_snapshots = snaps,
                             st_snapshot_idx = st_snapshot_idx s + 1, st_gen = g'\<rparr>)
       else Inr (s\<lparr>st_x := x', st_gen := g'\<rparr>))"

text \<open>
  The arguments that \<^verbatim>\<open>main\<close> passes have matching shapes: one bias, decay, noise
  and morphogen entry per gene, a square adjacency, one row of signalling effects
  per gene, and as many ligands and receptors as signalling pairs. On other
  arguments NumPy raises or broadcasts; the model covers the matching ones.
\<close>

definition shapes_ok :: "sim_params \<Rightarrow> bool" where
  "shapes_ok p \<longleftrightarrow>
     (let net = p_grn p; n_genes = length (grn_bias net);
          n_pairs = length (receptor (p_groups p))
      in length (grn_decay net) = n_genes \<and> length (grn_noise net) = n_genes
         \<and> length (p_morphogen p) = n_genes
         \<and> length (grn_W net) = n_genes \<and> list_all (\<lambda>row. length row = n_genes) (grn_W net)
         \<and> length (p_ligand_effects p) = n_genes
         \<and> list_all (\<lambda>row. length row = n_pairs) (p_ligand_effects p)
         \<and> length (ligand (p_groups p)) = n_pairs)"

text \<open>\<^verbatim>\<open>simulate_sample\<close>; the generator is shared with the caller, so its new state is returned.\<close>

definition simulate_sample :: "rng \<Rightarrow> sim_params \<Rightarrow> error + real list list list \<times> rng" where
  "simulate_sample g p =
     (if \<not> shapes_ok p then Inl ValueError
      else
        let n_genes = length (grn_bias (p_grn p));
            n_cells = p_n_cells p;
            n_timepoints = p_n_timepoints p
        in
        bind_res (initial_state g n_cells n_genes (p_groups p) (p_x_max p)) (\<lambda>(x, g1).
        bind_res (set_snapshot (replicate n_cells (replicate n_timepoints (replicate n_genes 0)))
                    n_timepoints 0 x) (\<lambda>snapshots.
          let total_steps = nat ((int n_timepoints - 1) * p_steps_per_tp p);
              (neighbor_idx, g2) =
                select_neighbors (p_neighbor_mode p) (p_neighbor_k p) n_cells g1
          in
          bind_res (for_each (sim_step p neighbor_idx) [0..<total_steps]
                      \<lparr>st_x = x, st_snapshots = snapshots, st_snapshot_idx = 1, st_gen = g2\<rparr>)
            (\<lambda>s. Inr (st_snapshots s, st_gen s)))))"

subsection \<open>Notions used to state the properties of the simulation\<close>




text \<open>
  Arguments on which the simulation is shown to return: matching shapes, group
  indices that name genes, at least one timepoint, a step size and noise amplitudes
  that are not negative, and positive Hill parameters.
\<close>

definition sim_ready :: "sim_params \<Rightarrow> bool" where
  "sim_ready p \<longleftrightarrow>
     shapes_ok p
     \<and> list_all (\<lambda>i. i < length (grn_bias (p_grn p)))
          (prog (p_groups p) @ lineage (p_groups p) @ ligand (p_groups p)
             @ receptor (p_groups p) @ target (p_groups p) @ housekeeping (p_groups p)
             @ other (p_groups p))
     \<and> list_all (\<lambda>s. 0 \<le> s) (grn_noise (p_grn p))
     \<and> 0 < p_n_timepoints p \<and> 0 \<le> p_dt p \<and> 0 < p_hill_k p \<and> 0 < p_hill_n p"

text \<open>A small sample used in examples: two genes, two cells, three timepoints.\<close>

definition example_params :: sim_params where
  "example_params =
     \<lparr>p_n_cells = 2, p_n_timepoints = 3, p_dt = 1, p_steps_per_tp = 2,
      p_grn = \<lparr>grn_W = [[2/10, 0], [35/100, 6/10]], grn_bias = [5/100, 2/10],
               grn_decay = [3/10, 2/10], grn_noise = [1/10, 6/100], grn_edges = []\<rparr>,
      p_ligand_effects = [[6/10], [0]],
      p_groups = \<lparr>prog = [0], lineage = [], ligand = [1], receptor = [0], target = [],
                  housekeeping = [], other = []\<rparr>,
      p_morphogen = [1/10, 0], p_x_max = 6, p_hill_k = 1, p_hill_n = 2,
      p_neighbor_mode = ''random'', p_neighbor_k = 1, p_neighbor_mix = 1\<rparr>"

section \<open>Facts about the error-propagating combinators\<close>

lemma bind_res_Inr:
  "bind_res m f = Inr y \<longleftrightarrow> (\<exists>v. m = Inr v \<and> f v = Inr y)"
  by (cases m) auto

lemma map_res_Inr:
  "map_res f xs = Inr ys \<Longrightarrow>
     length ys = length xs \<and> (\<forall>i<length xs. f (xs ! i) = Inr (ys ! i))"
proof (induction xs arbitrary: ys)
  case Nil
  then show ?case by simp
next
  case (Cons a xs)
  from Cons.prems obtain y zs where y: "f a = Inr y" and zs: "map_res f xs = Inr zs"
    and ys: "ys = y # zs"
    by (auto simp: bind_res_Inr)
  from Cons.IH [OF zs] show ?case
    using y ys by (auto simp: nth_Cons split: nat.splits)
qed

lemma for_each_append:
  "for_each f (xs @ ys) s = bind_res (for_each f xs s) (for_each f ys)"
proof (induction xs arbitrary: s)
  case Nil
  then show ?case by simp
next
  case (Cons a xs)
  then show ?case by (cases "f a s") simp_all
qed

section \<open>Properties of the Hill nonlinearity\<close>

lemma py_pow_pos: "0 < k \<Longrightarrow> py_pow k n = Inr (k powr n)"
  by (simp add: py_pow_def)










section \<open>Properties of the step-count check\<close>





section \<open>The catalogue and the morphogen bias\<close>

lemma add_group_indices:
  "fst (add_group prefix count names) = [length names..<length names + count]"
proof -
  have "map (\<lambda>i. s + i - 1) [1..<c + 1] = [s..<s + c]" for s c :: nat
    by (induction c) simp_all
  then show ?thesis by (simp add: add_group_def Let_def)
qed

lemma add_group_length:
  "length (snd (add_group prefix count names)) = length names + count"
  by (simp add: add_group_def Let_def)

lemma build_gene_names_groups:
  "snd build_gene_names =
     \<lparr>prog = [0..<4], lineage = [4..<16], ligand = [16..<36], receptor = [36..<56],
      target = [56..<136], housekeeping = [136..<186], other = [186..<200]\<rparr>"
  by (simp add: build_gene_names_def Let_def split_beta add_group_indices add_group_length)

lemma build_gene_names_length: "length (fst build_gene_names) = 200"
  by (simp add: build_gene_names_def Let_def split_beta add_group_length)


lemma of_char_digit: "d < 10 \<Longrightarrow> of_char (digit_char d) = (48 + d :: nat)"
proof -
  assume d: "d < 10"
  have "of_char (char_of (48 + d)) = ((48 + d) mod 256 :: nat)" by (rule of_char_of)
  moreover have "(48 + d) mod 256 = 48 + d" by (rule mod_less) (use d in linarith)
  ultimately show ?thesis unfolding digit_char_def by (rule trans)
qed

lemma digit_char_inj: "a < 10 \<Longrightarrow> b < 10 \<Longrightarrow> digit_char a = digit_char b \<Longrightarrow> a = b"
proof -
  assume a: "a < 10" and b: "b < 10" and e: "digit_char a = digit_char b"
  have "(48 + a :: nat) = of_char (digit_char a)" using of_char_digit [OF a] by (rule sym)
  also have "\<dots> = of_char (digit_char b)" unfolding e by (rule refl)
  also have "\<dots> = 48 + b" by (rule of_char_digit [OF b])
  finally show "a = b" by (rule add_left_imp_eq)
qed


lemma str_nat_small: "n < 10 \<Longrightarrow> str_nat n = [digit_char n]"
  by (subst str_nat.simps) simp

lemma str_nat_large:
  "\<not> n < 10 \<Longrightarrow> str_nat n = str_nat (n div 10) @ [digit_char (n mod 10)]"
  by (subst str_nat.simps) simp

lemma str_nat_nonempty: "str_nat n \<noteq> []"
  by (cases "n < 10") (simp_all add: str_nat_small str_nat_large)

lemma str_nat_inj: "str_nat i = str_nat j \<Longrightarrow> i = j"
proof (induction i arbitrary: j rule: str_nat.induct)
  case (1 n)
  show ?case
  proof (cases "n < 10")
    case True
    show ?thesis
    proof (cases "j < 10")
      case j: True
      from "1.prems" have "digit_char n = digit_char j"
        by (simp add: str_nat_small True j)
      with True j show ?thesis by (rule digit_char_inj)
    next
      case False
      from "1.prems" have "[digit_char n] = str_nat (j div 10) @ [digit_char (j mod 10)]"
        by (simp add: str_nat_small [OF True] str_nat_large [OF False])
      then have "str_nat (j div 10) = []" by simp
      then show ?thesis by (simp add: str_nat_nonempty)
    qed
  next
    case False
    show ?thesis
    proof (cases "j < 10")
      case True
      from "1.prems" have "str_nat (n div 10) @ [digit_char (n mod 10)] = [digit_char j]"
        by (simp add: str_nat_small [OF True] str_nat_large [OF False])
      then have "str_nat (n div 10) = []" by simp
      then show ?thesis by (simp add: str_nat_nonempty)
    next
      case j: False
      from "1.prems" have
        "str_nat (n div 10) @ [digit_char (n mod 10)] = str_nat (j div 10) @ [digit_char (j mod 10)]"
        by (simp add: str_nat_large [OF False] str_nat_large [OF j])
      then have a: "str_nat (n div 10) = str_nat (j div 10)"
        and b: "digit_char (n mod 10) = digit_char (j mod 10)" by simp_all
      from "1.IH" [OF False a] have q: "n div 10 = j div 10" .
      have "n mod 10 < 10" "j mod 10 < 10" by simp_all
      then have r: "n mod 10 = j mod 10" using b by (rule digit_char_inj)
      have "n = 10 * (n div 10) + n mod 10" by simp
      also have "\<dots> = 10 * (j div 10) + j mod 10" by (simp only: q r)
      also have "\<dots> = j" by simp
      finally show ?thesis .
    qed
  qed
qed

lemma build_gene_names_names:
  "fst build_gene_names =
     map (\<lambda>i. ''TF_PROG_'' @ str_nat i) [1..<5] @ map (\<lambda>i. ''TF_LIN'' @ str_nat i) [1..<13]
     @ map (\<lambda>i. ''LIG_'' @ str_nat i) [1..<21] @ map (\<lambda>i. ''REC_'' @ str_nat i) [1..<21]
     @ map (\<lambda>i. ''TARG_'' @ str_nat i) [1..<81] @ map (\<lambda>i. ''HK_'' @ str_nat i) [1..<51]
     @ map (\<lambda>i. ''OTHER_'' @ str_nat i) [1..<15]"
  by (simp add: build_gene_names_def add_group_def Let_def split_beta del: upt_rec_numeral)

lemma names_distinct: "distinct (fst build_gene_names)"
  unfolding build_gene_names_names
  by (auto simp: distinct_map inj_on_def dest: str_nat_inj simp del: upt_rec_numeral)

lemma fold_update_length: "length (fold (\<lambda>i b. b[i := v]) idxs a) = length a"
  by (induction idxs arbitrary: a) simp_all

lemma fold_update_nth:
  "g < length a \<Longrightarrow>
     fold (\<lambda>i b. b[i := v]) idxs a ! g = (if g \<in> set idxs then v else a ! g)"
proof (induction idxs arbitrary: a)
  case Nil
  then show ?case by simp
next
  case (Cons i idxs)
  have "g < length (a[i := v])" using Cons.prems by simp
  from Cons.IH [OF this] show ?case
    using Cons.prems by (auto simp: nth_list_update)
qed

lemma lineage_block_set:
  "set (lineage_block xs t l) = {xs ! i | i. l * t \<le> i \<and> i < (l + 1) * t \<and> i < length xs}"
proof -
  have "set (take t (drop (l * t) xs)) = {xs ! i | i. l * t \<le> i \<and> i < l * t + t \<and> i < length xs}"
  proof (rule set_eqI, rule iffI)
    fix y assume "y \<in> set (take t (drop (l * t) xs))"
    then obtain j where j: "j < length (take t (drop (l * t) xs))"
      and y: "take t (drop (l * t) xs) ! j = y"
      by (auto simp: in_set_conv_nth)
    from j have jt: "j < t" and jl: "l * t + j < length xs" by auto
    then have "y = xs ! (l * t + j)" using y by simp
    then show "y \<in> {xs ! i | i. l * t \<le> i \<and> i < l * t + t \<and> i < length xs}"
      using jt jl by auto
  next
    fix y assume "y \<in> {xs ! i | i. l * t \<le> i \<and> i < l * t + t \<and> i < length xs}"
    then obtain i where i: "l * t \<le> i" "i < l * t + t" "i < length xs" and y: "y = xs ! i"
      by auto
    let ?j = "i - l * t"
    have "?j < length (take t (drop (l * t) xs))" using i by auto
    moreover have "take t (drop (l * t) xs) ! ?j = y" using i y by simp
    ultimately show "y \<in> set (take t (drop (l * t) xs))"
      by (metis nth_mem)
  qed
  then show ?thesis by (simp add: lineage_block_def py_slice_def add.commute)
qed

lemma lineage_block_subset: "set (lineage_block xs t l) \<subseteq> set xs"
  by (auto simp: lineage_block_set)

lemma lineage_block_disjoint:
  assumes "distinct xs" "l \<noteq> l'"
  shows "set (lineage_block xs t l) \<inter> set (lineage_block xs t l') = {}"
proof (rule ccontr)
  assume "set (lineage_block xs t l) \<inter> set (lineage_block xs t l') \<noteq> {}"
  then obtain i j where i: "l * t \<le> i" "i < (l + 1) * t" "i < length xs"
    and j: "l' * t \<le> j" "j < (l' + 1) * t" "j < length xs" and eq: "xs ! i = xs ! j"
    by (auto simp: lineage_block_set)
  from assms(1) eq i(3) j(3) have ij: "i = j" by (simp add: nth_eq_iff_index_eq)
  from assms(2) consider "l < l'" | "l' < l" by linarith
  then show False
  proof cases
    case 1
    then have "Suc l \<le> l'" by simp
    then have "Suc l * t \<le> l' * t" by (rule mult_le_mono1)
    then have "(l + 1) * t \<le> l' * t" by simp
    with i j ij show False by linarith
  next
    case 2
    then have "Suc l' \<le> l" by simp
    then have "Suc l' * t \<le> l * t" by (rule mult_le_mono1)
    then have "(l' + 1) * t \<le> l * t" by simp
    with i j ij show False by linarith
  qed
qed

lemma sample_morphogen_entries:
  assumes "distinct (lineage grp)" "\<forall>i\<in>set (lineage grp). i < n_genes"
    and "n \<le> length lb"
  shows "\<exists>m. sample_morphogen grp n_genes n tfs scale lb = Inr m \<and> length m = n_genes
    \<and> (\<forall>l<n. \<forall>g\<in>set (lineage_block (lineage grp) tfs l). m ! g = scale * lb ! l)
    \<and> (\<forall>g<n_genes. (\<forall>l<n. g \<notin> set (lineage_block (lineage grp) tfs l)) \<longrightarrow> m ! g = 0)"
  using assms(3)
proof (induction n)
  case 0
  then show ?case by (simp add: sample_morphogen_def)
next
  case (Suc n)
  let ?blk = "lineage_block (lineage grp) tfs"
  from Suc obtain m where m: "sample_morphogen grp n_genes n tfs scale lb = Inr m"
    and len: "length m = n_genes"
    and on: "\<forall>l<n. \<forall>g\<in>set (?blk l). m ! g = scale * lb ! l"
    and off: "\<forall>g<n_genes. (\<forall>l<n. g \<notin> set (?blk l)) \<longrightarrow> m ! g = 0"
    by auto
  let ?m' = "fold (\<lambda>i b. b[i := scale * lb ! n]) (?blk n) m"
  have inb: "\<forall>g\<in>set (?blk n). g < n_genes"
    using assms(2) lineage_block_subset by blast
  then have ok: "list_all (\<lambda>i. i < length m) (?blk n)"
    using len by (simp add: list_all_iff)
  have step: "sample_morphogen grp n_genes (Suc n) tfs scale lb = Inr ?m'"
    using m ok Suc.prems
    by (simp add: sample_morphogen_def for_each_append assign_at_def Let_def)
  have l': "length ?m' = n_genes" using len by (simp add: fold_update_length)
  have nth': "?m' ! g = (if g \<in> set (?blk n) then scale * lb ! n else m ! g)"
    if "g < n_genes" for g
    using that len by (simp add: fold_update_nth)
  have on': "\<forall>l<Suc n. \<forall>g\<in>set (?blk l). ?m' ! g = scale * lb ! l"
  proof (intro allI impI ballI)
    fix l g assume l: "l < Suc n" and g: "g \<in> set (?blk l)"
    have gn: "g < n_genes" using g assms(2) lineage_block_subset by blast
    show "?m' ! g = scale * lb ! l"
    proof (cases "l = n")
      case True
      then show ?thesis using nth' [OF gn] g by simp
    next
      case False
      then have ln: "l < n" using l by simp
      have "g \<notin> set (?blk n)"
        using lineage_block_disjoint [OF assms(1) False, of tfs] g by blast
      then show ?thesis using nth' [OF gn] on ln g by simp
    qed
  qed
  have off': "\<forall>g<n_genes. (\<forall>l<Suc n. g \<notin> set (?blk l)) \<longrightarrow> ?m' ! g = 0"
    using nth' off by (simp add: less_Suc_eq)
  show ?case using step l' on' off' by blast
qed


lemma main_lineage_blocks:
  assumes "l < 6"
  shows "lineage_block (lineage (snd build_gene_names)) main_lineage_tfs_per l
           = [4 + 2 * l, 5 + 2 * l]"
proof -
  have "take 2 (drop (l * 2) [4..<16]) = [4 + 2 * l..<6 + 2 * l]"
    using assms by (simp add: take_upt mult.commute del: upt_rec_numeral)
  also have "\<dots> = [4 + 2 * l, 5 + 2 * l]"
    by (simp add: upt_rec)
  finally show ?thesis
    by (simp add: build_gene_names_groups lineage_block_def py_slice_def main_lineage_tfs_per_def)
qed

lemma main_morphogen_entries:
  assumes "length lb = 6"
  shows "\<exists>m. main_morphogen scale lb = Inr m \<and> length m = 200
    \<and> (\<forall>l<6. m ! (4 + 2 * l) = scale * lb ! l \<and> m ! (5 + 2 * l) = scale * lb ! l)
    \<and> (\<forall>g<200. g < 4 \<or> 16 \<le> g \<longrightarrow> m ! g = 0)"
proof -
  let ?grp = "snd build_gene_names"
  have d: "distinct (lineage ?grp)" by (simp add: build_gene_names_groups)
  have b: "\<forall>i\<in>set (lineage ?grp). i < 200" by (simp add: build_gene_names_groups)
  have n: "6 \<le> length lb" using assms by simp
  from sample_morphogen_entries [OF d b n, of main_lineage_tfs_per scale]
  obtain m where m: "sample_morphogen ?grp 200 6 main_lineage_tfs_per scale lb = Inr m"
    and len: "length m = 200"
    and on: "\<forall>l<6. \<forall>g\<in>set (lineage_block (lineage ?grp) main_lineage_tfs_per l).
                m ! g = scale * lb ! l"
    and off: "\<forall>g<200. (\<forall>l<6. g \<notin> set (lineage_block (lineage ?grp) main_lineage_tfs_per l))
                \<longrightarrow> m ! g = 0"
    by blast
  have run: "main_morphogen scale lb = Inr m"
    using m by (simp add: main_morphogen_def split_beta build_gene_names_length main_n_lineages_def)
  have on': "\<forall>l<6. m ! (4 + 2 * l) = scale * lb ! l \<and> m ! (5 + 2 * l) = scale * lb ! l"
    using on by (simp add: main_lineage_blocks)
  have off': "\<forall>g<200. g < 4 \<or> 16 \<le> g \<longrightarrow> m ! g = 0"
  proof (intro allI impI)
    fix g :: nat assume g: "g < 200" and out: "g < 4 \<or> 16 \<le> g"
    have "\<forall>l<6. g \<notin> set (lineage_block (lineage ?grp) main_lineage_tfs_per l)"
      using out by (auto simp: main_lineage_blocks)
    then show "m ! g = 0" using off g by blast
  qed
  show ?thesis using run len on' off' by blast
qed

text \<open>
  C1 (as amended). For every sample, the morphogen bias vector is nonzero only on
  lineage TF genes: every entry outside the lineage TF group is zero, and for each of
  the lineages the entries at its TF genes equal the morphogen scale times the weight
  drawn for that lineage. The vector is not confined to the TF genes of one lineage.
\<close>

theorem morphogen_supported_on_lineage_tfs:
  assumes "length lineage_bias = main_n_lineages"
  shows "\<exists>m. main_morphogen morphogen_scale lineage_bias = Inr m
    \<and> length m = length (fst build_gene_names)
    \<and> (\<forall>g<length m. m ! g \<noteq> 0 \<longrightarrow> g \<in> set (lineage (snd build_gene_names)))
    \<and> (\<forall>l<main_n_lineages.
          \<forall>g\<in>set (lineage_block (lineage (snd build_gene_names)) main_lineage_tfs_per l).
            m ! g = morphogen_scale * lineage_bias ! l)"
proof -
  have lb: "length lineage_bias = 6" using assms by (simp add: main_n_lineages_def)
  from main_morphogen_entries [OF lb, of morphogen_scale] obtain m where
    run: "main_morphogen morphogen_scale lineage_bias = Inr m" and len: "length m = 200"
    and on: "\<forall>l<6. m ! (4 + 2 * l) = morphogen_scale * lineage_bias ! l
                \<and> m ! (5 + 2 * l) = morphogen_scale * lineage_bias ! l"
    and off: "\<forall>g<200. g < 4 \<or> 16 \<le> g \<longrightarrow> m ! g = 0"
    by blast
  have a: "\<forall>g<length m. m ! g \<noteq> 0 \<longrightarrow> g \<in> set (lineage (snd build_gene_names))"
    using off len by (auto simp: build_gene_names_groups simp del: upt_rec_numeral)
  have b: "\<forall>l<main_n_lineages.
          \<forall>g\<in>set (lineage_block (lineage (snd build_gene_names)) main_lineage_tfs_per l).
            m ! g = morphogen_scale * lineage_bias ! l"
    using on by (simp add: main_n_lineages_def main_lineage_blocks)
  show ?thesis using run len a b by (auto simp: build_gene_names_length)
qed

theorem morphogen_supported_on_lineage_tfs_witness:
  "length (replicate 6 (1/6 :: real)) = main_n_lineages
   \<and> (\<exists>m. main_morphogen (3/5) (replicate 6 (1/6)) = Inr m
        \<and> length m = length (fst build_gene_names)
        \<and> m ! 4 = 1/10 \<and> m ! 15 = 1/10
        \<and> (\<forall>g<length m. m ! g \<noteq> 0 \<longrightarrow> g \<in> set (lineage (snd build_gene_names))))"
proof -
  have h: "length (replicate 6 (1/6 :: real)) = main_n_lineages"
    by (simp add: main_n_lineages_def)
  from morphogen_supported_on_lineage_tfs [OF h, of "3/5"] obtain m where
    run: "main_morphogen (3/5) (replicate 6 (1/6)) = Inr m"
    and len: "length m = length (fst build_gene_names)"
    and sup: "\<forall>g<length m. m ! g \<noteq> 0 \<longrightarrow> g \<in> set (lineage (snd build_gene_names))"
    and on: "\<forall>l<main_n_lineages.
          \<forall>g\<in>set (lineage_block (lineage (snd build_gene_names)) main_lineage_tfs_per l).
            m ! g = 3/5 * replicate 6 (1/6 :: real) ! l"
    by blast
  have b0: "lineage_block (lineage (snd build_gene_names)) main_lineage_tfs_per 0 = [4, 5]"
    using main_lineage_blocks [of 0] by simp
  have b5: "lineage_block (lineage (snd build_gene_names)) main_lineage_tfs_per 5 = [14, 15]"
    using main_lineage_blocks [of 5] by simp
  have l0: "(0::nat) < main_n_lineages" and l5: "(5::nat) < main_n_lineages"
    by (simp_all add: main_n_lineages_def)
  have "m ! 4 = 3/5 * replicate 6 (1/6 :: real) ! 0"
    using on [rule_format, OF l0, of 4] b0 by simp
  then have a: "m ! 4 = 1/10" by simp
  have "m ! 15 = 3/5 * replicate 6 (1/6 :: real) ! 5"
    using on [rule_format, OF l5, of 15] b5 by simp
  then have b: "m ! 15 = 1/10" by simp
  show ?thesis using h run len sup a b by blast
qed

text \<open>
  The claim as stated fails: with equal lineage weights the genes 4 and 6, TF genes of
  the lineages 0 and 1, both carry a nonzero bias, so no single lineage holds all the
  nonzero entries.
\<close>

theorem morphogen_single_lineage_counterexample:
  "\<not> (\<exists>l<main_n_lineages. \<forall>m. main_morphogen (3/5) (replicate 6 (1/6)) = Inr m \<longrightarrow>
        (\<forall>g<length m. m ! g \<noteq> 0 \<longrightarrow>
           g \<in> set (lineage_block (lineage (snd build_gene_names)) main_lineage_tfs_per l)))"
proof
  assume "\<exists>l<main_n_lineages. \<forall>m. main_morphogen (3/5) (replicate 6 (1/6)) = Inr m \<longrightarrow>
        (\<forall>g<length m. m ! g \<noteq> 0 \<longrightarrow>
           g \<in> set (lineage_block (lineage (snd build_gene_names)) main_lineage_tfs_per l))"
  then obtain l where l: "l < 6"
    and all: "\<forall>m. main_morphogen (3/5) (replicate 6 (1/6)) = Inr m \<longrightarrow>
        (\<forall>g<length m. m ! g \<noteq> 0 \<longrightarrow>
           g \<in> set (lineage_block (lineage (snd build_gene_names)) main_lineage_tfs_per l))"
    by (auto simp: main_n_lineages_def)
  have lb: "length (replicate 6 (1/6 :: real)) = 6" by simp
  from main_morphogen_entries [OF lb, of "3/5"] obtain m where
    run: "main_morphogen (3/5) (replicate 6 (1/6)) = Inr m" and len: "length m = 200"
    and on: "\<forall>l<6. m ! (4 + 2 * l) = 3/5 * replicate 6 (1/6 :: real) ! l
                \<and> m ! (5 + 2 * l) = 3/5 * replicate 6 (1/6 :: real) ! l"
    by blast
  have l0: "(0::nat) < 6" and l1: "(1::nat) < 6" by simp_all
  have "m ! (4 + 2 * 0) = 3/5 * replicate 6 (1/6 :: real) ! 0"
    using on [rule_format, OF l0] by blast
  then have m4: "m ! 4 \<noteq> 0" by simp
  have "m ! (4 + 2 * 1) = 3/5 * replicate 6 (1/6 :: real) ! 1"
    using on [rule_format, OF l1] by blast
  then have m6: "m ! 6 \<noteq> 0" by simp
  from all run have sup: "\<forall>g<length m. m ! g \<noteq> 0 \<longrightarrow>
        g \<in> set (lineage_block (lineage (snd build_gene_names)) main_lineage_tfs_per l)"
    by blast
  have "4 \<in> set (lineage_block (lineage (snd build_gene_names)) main_lineage_tfs_per l)"
    and "6 \<in> set (lineage_block (lineage (snd build_gene_names)) main_lineage_tfs_per l)"
    using sup m4 m6 len by auto
  then show False using l by (simp add: main_lineage_blocks)
qed

section \<open>Properties of lineage assignment\<close>














section \<open>Properties of network construction\<close>

lemma maintainsI: "(\<And>s. I s \<Longrightarrow> \<exists>s'. f s = Inr s' \<and> I s') \<Longrightarrow> maintains I f"
  by (simp add: maintains_def)

lemma maintainsD: "maintains I f \<Longrightarrow> I s \<Longrightarrow> \<exists>s'. f s = Inr s' \<and> I s'"
  by (simp add: maintains_def)

lemma maintains_Inr: "maintains I Inr"
  by (simp add: maintains_def)

lemma maintains_bind:
  assumes "maintains I f" "maintains I g"
  shows "maintains I (\<lambda>s. bind_res (f s) g)"
proof (rule maintainsI)
  fix s assume "I s"
  with assms(1) obtain s1 where "f s = Inr s1" "I s1" by (auto dest: maintainsD)
  moreover from assms(2) \<open>I s1\<close> obtain s2 where "g s1 = Inr s2" "I s2" by (auto dest: maintainsD)
  ultimately show "\<exists>s'. bind_res (f s) g = Inr s' \<and> I s'" by simp
qed

lemma maintains_if: "maintains I f \<Longrightarrow> maintains I g \<Longrightarrow> maintains I (\<lambda>s. if c then f s else g s)"
  by (simp add: maintains_def)

lemma maintains_for_each:
  assumes "\<And>x. x \<in> set xs \<Longrightarrow> maintains I (f x)"
  shows "maintains I (for_each f xs)"
  using assms
proof (induction xs)
  case Nil
  then show ?case by (simp add: maintains_def)
next
  case (Cons a xs)
  have "maintains I (\<lambda>s. bind_res (f a s) (for_each f xs))"
    by (rule maintains_bind) (simp_all add: Cons)
  then show ?case by (simp add: maintains_def)
qed

lemma coo_append:
  assumes "length (rows b) = length (data b)" "length (cols b) = length (data b)"
  shows "coo (b\<lparr>rows := rows b @ [r], cols := cols b @ [c], data := data b @ [d],
                edge_list := es\<rparr>) = coo b @ [(r, c, d)]"
  using assms by (simp add: coo_def)

lemma add_edge_maintains:
  assumes "src < length names" "dst < length names" "label \<noteq> ''random''"
  shows "maintains (builder_inv names g0 k) (add_edge names src dst w label)"
proof (rule maintainsI)
  fix b assume inv: "builder_inv names g0 k b"
  let ?e = "\<lparr>edge_source = names ! src, edge_target = names ! dst,
              edge_weight = w, edge_type = label\<rparr>"
  let ?b = "b\<lparr>rows := rows b @ [dst], cols := cols b @ [src], data := data b @ [w],
                edge_list := edge_list b @ [?e]\<rparr>"
  have run: "add_edge names src dst w label b = Inr ?b"
    using assms by (simp add: add_edge_def)
  have c: "coo ?b = coo b @ [(dst, src, w)]"
    using inv by (simp add: coo_append builder_inv_def)
  have r: "edge_rel names (dst, src, w) ?e"
    using assms by (simp add: edge_rel_def is_random_def)
  have "list_all2 (edge_rel names) (coo ?b) (edge_list b @ [?e])"
    unfolding c using inv r by (auto simp: builder_inv_def intro: list_all2_appendI)
  then have "builder_inv names g0 k ?b"
    using inv assms(3) by (simp add: builder_inv_def is_random_def)
  with run show "\<exists>s'. add_edge names src dst w label b = Inr s' \<and> builder_inv names g0 k s'"
    by blast
qed

lemma advance_advance: "advance j (advance i g) = advance (i + j) g"
  by (simp add: advance_def add.assoc)

lemma gen_update_inv:
  "builder_inv names g0 k b \<Longrightarrow> builder_inv names g0 k (b\<lparr>gen := advance j (gen b)\<rparr>)"
  by (auto simp: builder_inv_def coo_def advance_advance)

lemma add_edge_gen_maintains:
  assumes "src < length names" "dst < length names" "label \<noteq> ''random''"
  shows "maintains (builder_inv names g0 k)
           (\<lambda>b. add_edge names src dst (w b) label (b\<lparr>gen := advance j (gen b)\<rparr>))"
proof (rule maintainsI)
  fix b assume "builder_inv names g0 k b"
  then have "builder_inv names g0 k (b\<lparr>gen := advance j (gen b)\<rparr>)" by (rule gen_update_inv)
  from maintainsD [OF add_edge_maintains [OF assms, of g0 k "w b"] this]
  show "\<exists>s'. add_edge names src dst (w b) label (b\<lparr>gen := advance j (gen b)\<rparr>) = Inr s'
          \<and> builder_inv names g0 k s'" .
qed

lemma prog_edges_maintains:
  assumes "\<forall>i\<in>set g_prog. i < length names"
  shows "maintains (builder_inv names g0 k) (prog_edges names g_prog)"
  unfolding prog_edges_def
proof (rule maintains_for_each)
  fix i assume i: "i \<in> set g_prog"
  then have il: "i < length names" using assms by blast
  show "maintains (builder_inv names g0 k)
     (\<lambda>b. bind_res (add_edge names i i (2/10) ''prog_self'' b)
        (for_each (\<lambda>j b. if i = j then Inr b
            else let (u, g) = rng_random (gen b)
              in add_edge names j i (35/100 + 1/10 * u) ''prog_mutual'' (b\<lparr>gen := g\<rparr>)) g_prog))"
  proof (rule maintains_bind)
    show "maintains (builder_inv names g0 k) (add_edge names i i (2/10) ''prog_self'')"
      using il by (intro add_edge_maintains) simp_all
    show "maintains (builder_inv names g0 k)
        (for_each (\<lambda>j b. if i = j then Inr b
            else let (u, g) = rng_random (gen b)
              in add_edge names j i (35/100 + 1/10 * u) ''prog_mutual'' (b\<lparr>gen := g\<rparr>)) g_prog)"
    proof (rule maintains_for_each)
      fix j assume "j \<in> set g_prog"
      then have jl: "j < length names" using assms by blast
      have "maintains (builder_inv names g0 k)
          (\<lambda>b. add_edge names j i (35/100 + 1/10 * fst (rng_random (gen b))) ''prog_mutual''
                  (b\<lparr>gen := advance 1 (gen b)\<rparr>))"
        using il jl by (intro add_edge_gen_maintains) simp_all
      then show "maintains (builder_inv names g0 k) (\<lambda>b. if i = j then Inr b
            else let (u, g) = rng_random (gen b)
              in add_edge names j i (35/100 + 1/10 * u) ''prog_mutual'' (b\<lparr>gen := g\<rparr>))"
        by (simp add: maintains_def split_beta rng_random_def)
    qed
  qed
qed


lemma prog_to_lineage_edges_maintains:
  assumes "\<forall>i\<in>set g_prog. i < length names" "\<forall>i\<in>set g_lineage. i < length names"
  shows "maintains (builder_inv names g0 k) (prog_to_lineage_edges names g_prog g_lineage)"
  unfolding prog_to_lineage_edges_def
  using assms by (intro maintains_for_each add_edge_maintains) auto

lemma prog_to_receptor_edges_maintains:
  assumes "\<forall>i\<in>set g_prog. i < length names" "\<forall>i\<in>set g_receptor. i < length names"
  shows "maintains (builder_inv names g0 k) (prog_to_receptor_edges names g_prog g_receptor)"
  unfolding prog_to_receptor_edges_def
  using assms by (intro maintains_for_each add_edge_maintains) auto

lemma lineage_block_edges_maintains:
  assumes p: "\<forall>i\<in>set g_prog. i < length names" and l: "\<forall>i\<in>set g_lineage. i < length names"
  shows "maintains (builder_inv names g0 k)
           (lineage_block_edges names g_prog g_lineage n_lineages tfs lin_block)"
proof -
  let ?tf = "lineage_block g_lineage tfs lin_block"
  have blk: "\<And>j i. i \<in> set (lineage_block g_lineage tfs j) \<Longrightarrow> i < length names"
    using l lineage_block_subset by blast
  have t1: "maintains (builder_inv names g0 k)
      (for_each (\<lambda>tf. add_edge names tf tf (6/10) ''lineage_self'') ?tf)"
    by (intro maintains_for_each add_edge_maintains) (auto dest: blk)
  have t2: "maintains (builder_inv names g0 k)
      (\<lambda>b1. if length ?tf = 2
         then bind_res (add_edge names (?tf ! 0) (?tf ! 1) (4/10) ''lineage_partner'' b1)
                (add_edge names (?tf ! 1) (?tf ! 0) (4/10) ''lineage_partner'')
         else Inr b1)"
  proof (cases "length ?tf = 2")
    case True
    then have "?tf ! 0 \<in> set ?tf" "?tf ! 1 \<in> set ?tf" by simp_all
    then have "?tf ! 0 < length names" "?tf ! 1 < length names" by (auto dest: blk)
    then have "maintains (builder_inv names g0 k)
      (\<lambda>b1. bind_res (add_edge names (?tf ! 0) (?tf ! 1) (4/10) ''lineage_partner'' b1)
                (add_edge names (?tf ! 1) (?tf ! 0) (4/10) ''lineage_partner''))"
      by (intro maintains_bind add_edge_maintains) simp_all
    then show ?thesis using True by (simp add: maintains_def)
  next
    case False
    then show ?thesis by (simp add: maintains_def)
  qed
  have t3: "maintains (builder_inv names g0 k)
      (for_each (\<lambda>tf. for_each (\<lambda>other_block b.
             if other_block = lin_block then Inr b
             else for_each (\<lambda>other_tf.
                   add_edge names other_tf tf (- (5/10)) ''lineage_inhibit'')
                 (lineage_block g_lineage tfs other_block) b)
           [0..<n_lineages]) ?tf)"
    by (intro maintains_for_each maintains_if maintains_Inr add_edge_maintains) (auto dest: blk)
  have t4: "maintains (builder_inv names g0 k)
      (for_each (\<lambda>tf. for_each (\<lambda>prog_idx.
             add_edge names tf prog_idx (- (3/10)) ''lineage_repress_prog'') g_prog) ?tf)"
    using p by (intro maintains_for_each add_edge_maintains) (auto dest: blk)
  have "maintains (builder_inv names g0 k)
     (\<lambda>b0. bind_res
        (for_each (\<lambda>tf. add_edge names tf tf (6/10) ''lineage_self'') ?tf b0)
      (\<lambda>b1. bind_res
        (if length ?tf = 2
         then bind_res (add_edge names (?tf ! 0) (?tf ! 1) (4/10) ''lineage_partner'' b1)
                (add_edge names (?tf ! 1) (?tf ! 0) (4/10) ''lineage_partner'')
         else Inr b1)
      (\<lambda>b2. bind_res
        (for_each (\<lambda>tf. for_each (\<lambda>other_block b.
             if other_block = lin_block then Inr b
             else for_each (\<lambda>other_tf.
                   add_edge names other_tf tf (- (5/10)) ''lineage_inhibit'')
                 (lineage_block g_lineage tfs other_block) b)
           [0..<n_lineages]) ?tf b2)
      (for_each (\<lambda>tf. for_each (\<lambda>prog_idx.
             add_edge names tf prog_idx (- (3/10)) ''lineage_repress_prog'') g_prog) ?tf))))"
    by (intro maintains_bind t1 t2 t3 t4)
  then show ?thesis
    by (simp add: lineage_block_edges_def [abs_def] Let_def)
qed

lemma split_sizes_subset: "sub \<in> set (split_sizes xs ks) \<Longrightarrow> set sub \<subseteq> set xs"
proof (induction ks arbitrary: xs)
  case Nil
  then show ?case by simp
next
  case (Cons k ks)
  from Cons.prems have "sub = take k xs \<or> sub \<in> set (split_sizes (drop k xs) ks)" by simp
  then show ?case
  proof
    assume "sub = take k xs"
    then show ?thesis by (simp add: set_take_subset)
  next
    assume "sub \<in> set (split_sizes (drop k xs) ks)"
    from Cons.IH [OF this] show ?thesis using set_drop_subset by fastforce
  qed
qed

lemma array_split_subset:
  "array_split xs n = Inr ss \<Longrightarrow> sub \<in> set ss \<Longrightarrow> set sub \<subseteq> set xs"
  by (auto simp: array_split_def Let_def split: if_splits dest: split_sizes_subset)

lemma lineage_to_group_edges_maintains:
  assumes l: "\<forall>i\<in>set g_lineage. i < length names" and m: "\<forall>i\<in>set members. i < length names"
    and n: "0 < n_lineages" and lab: "label \<noteq> ''random''"
  shows "maintains (builder_inv names g0 k)
           (lineage_to_group_edges names g_lineage tfs members n_lineages w label)"
proof -
  from n obtain splits where sp: "array_split members n_lineages = Inr splits"
    by (auto simp: array_split_def Let_def)
  have blk: "\<And>j i. i \<in> set (lineage_block g_lineage tfs j) \<Longrightarrow> i < length names"
    using l lineage_block_subset by blast
  have sub: "\<And>j subset i. (j, subset) \<in> set (zip [0..<length splits] splits)
      \<Longrightarrow> i \<in> set subset \<Longrightarrow> i < length names"
    using array_split_subset [OF sp] m by (meson set_zip_rightD subsetD)
  have "maintains (builder_inv names g0 k)
     (for_each (\<lambda>(lin_block, subset).
           for_each (\<lambda>tf. for_each (\<lambda>member. add_edge names tf member w label) subset)
             (lineage_block g_lineage tfs lin_block))
         (zip [0..<length splits] splits))"
  proof (rule maintains_for_each)
    fix x assume x: "x \<in> set (zip [0..<length splits] splits)"
    obtain j subset where xe: "x = (j, subset)" by (cases x)
    have "maintains (builder_inv names g0 k)
       (for_each (\<lambda>tf. for_each (\<lambda>member. add_edge names tf member w label) subset)
             (lineage_block g_lineage tfs j))"
      using x xe lab by (intro maintains_for_each add_edge_maintains) (auto dest: blk sub)
    then show "maintains (builder_inv names g0 k) (case x of (lin_block, subset) \<Rightarrow>
           for_each (\<lambda>tf. for_each (\<lambda>member. add_edge names tf member w label) subset)
             (lineage_block g_lineage tfs lin_block))"
      using xe by simp
  qed
  then show ?thesis
    using sp by (simp add: lineage_to_group_edges_def [abs_def])
qed

lemma groups_okD:
  assumes "groups_ok names grp"
  shows "\<forall>i\<in>set (prog grp). i < length names" "\<forall>i\<in>set (lineage grp). i < length names"
    "\<forall>i\<in>set (ligand grp). i < length names" "\<forall>i\<in>set (receptor grp). i < length names"
    "\<forall>i\<in>set (target grp). i < length names" "\<forall>i\<in>set (housekeeping grp). i < length names"
    "\<forall>i\<in>set (other grp). i < length names"
  using assms by (auto simp: groups_ok_def list_all_iff)

lemma structured_edges_maintains:
  assumes ok: "groups_ok names grp" and n: "0 < n_lineages"
  shows "maintains (builder_inv names g0 k) (structured_edges names grp n_lineages tfs)"
proof -
  note g = groups_okD [OF ok]
  have "maintains (builder_inv names g0 k)
    (\<lambda>b0. bind_res (prog_edges names (prog grp) b0) (\<lambda>b1.
     bind_res (prog_to_lineage_edges names (prog grp) (lineage grp) b1) (\<lambda>b2.
     bind_res (for_each
                 (lineage_block_edges names (prog grp) (lineage grp) n_lineages tfs)
                 [0..<n_lineages] b2) (\<lambda>b3.
     bind_res (lineage_to_group_edges names (lineage grp) tfs (target grp)
                 n_lineages (7/10) ''lineage_to_target'' b3) (\<lambda>b4.
     bind_res (lineage_to_group_edges names (lineage grp) tfs (ligand grp)
                 n_lineages (6/10) ''lineage_to_ligand'' b4) (\<lambda>b5.
     prog_to_receptor_edges names (prog grp) (receptor grp) b5))))))"
    using g n
    by (intro maintains_bind maintains_for_each prog_edges_maintains prog_to_lineage_edges_maintains
        lineage_block_edges_maintains lineage_to_group_edges_maintains prog_to_receptor_edges_maintains)
      simp_all
  then show ?thesis by (simp add: structured_edges_def [abs_def])
qed


lemma advance_simps [simp]:
  "pos (advance k g) = pos g + k"
  "int_draws (advance k g) = int_draws g"
  "unit_draws (advance k g) = unit_draws g"
  by (simp_all add: advance_def)

lemma rng_uniform_range:
  "- (5/100) \<le> fst (rng_uniform (- (5/100)) (5/100) g)
     \<and> fst (rng_uniform (- (5/100)) (5/100) g) < 5/100"
proof -
  let ?u = "frac (unit_draws g (pos g))"
  have "0 \<le> ?u" "?u < 1" by (simp_all add: frac_lt_1)
  then show ?thesis by (simp add: rng_uniform_def)
qed

text \<open>One iteration of the loop of random edges.\<close>

lemma random_edge_step:
  assumes inv: "builder_inv names g0 k b" and n: "0 < length names"
  shows "\<exists>b'. random_edge names b = Inr b'
    \<and> (if int_draws (gen b) (pos (gen b)) mod length names
           = int_draws (gen b) (pos (gen b) + 1) mod length names
        then builder_inv names g0 k b' \<and> gen b' = advance 2 (gen b)
        else builder_inv names g0 (Suc k) b' \<and> gen b' = advance 3 (gen b))"
proof -
  let ?n = "length names"
  let ?src = "int_draws (gen b) (pos (gen b)) mod ?n"
  let ?dst = "int_draws (gen b) (pos (gen b) + 1) mod ?n"
  have i1: "rng_integers 0 ?n (gen b) = Inr (?src, advance 1 (gen b))"
    using n by (simp add: rng_integers_def)
  have i2: "rng_integers 0 ?n (advance 1 (gen b)) = Inr (?dst, advance 2 (gen b))"
    using n by (simp add: rng_integers_def advance_def)
  show ?thesis
  proof (cases "?src = ?dst")
    case True
    then have "random_edge names b = Inr (b\<lparr>gen := advance 2 (gen b)\<rparr>)"
      by (simp only: random_edge_def Let_def i1 bind_res.simps prod.case i2 if_True simp_thms)
    then show ?thesis using True gen_update_inv [OF inv, of 2] by simp
  next
    case False
    let ?g2 = "advance 2 (gen b)"
    let ?w = "fst (rng_uniform (- (5/100)) (5/100) ?g2)"
    let ?b = "b\<lparr>gen := advance 3 (gen b)\<rparr>"
    let ?e = "\<lparr>edge_source = names ! ?src, edge_target = names ! ?dst,
              edge_weight = ?w, edge_type = ''random''\<rparr>"
    let ?b' = "?b\<lparr>rows := rows ?b @ [?dst], cols := cols ?b @ [?src], data := data ?b @ [?w],
                edge_list := edge_list ?b @ [?e]\<rparr>"
    have sl: "?src < ?n" "?dst < ?n" using n by simp_all
    have g3: "snd (rng_uniform (- (5/100)) (5/100) ?g2) = advance 3 (gen b)"
      by (simp add: rng_uniform_def advance_def)
    have "random_edge names b = add_edge names ?src ?dst ?w ''random'' ?b"
      using False
      by (simp only: random_edge_def Let_def i1 bind_res.simps prod.case i2 if_False
          split_beta fst_conv snd_conv g3)
    also have "\<dots> = Inr ?b'"
      unfolding add_edge_def using sl by simp
    finally have run: "random_edge names b = Inr ?b'" .
    have inv0: "builder_inv names g0 k ?b" using inv by (rule gen_update_inv)
    have c: "coo ?b' = coo ?b @ [(?dst, ?src, ?w)]"
      using inv by (simp add: coo_def builder_inv_def)
    have r: "edge_rel names (?dst, ?src, ?w) ?e"
      using sl False rng_uniform_range [of ?g2] by (simp add: edge_rel_def is_random_def)
    have "list_all2 (edge_rel names) (coo ?b') (edge_list ?b @ [?e])"
      unfolding c using inv0 r by (auto simp: builder_inv_def intro: list_all2_appendI)
    then have "builder_inv names g0 (Suc k) ?b'"
      using inv0 by (simp add: builder_inv_def is_random_def)
    moreover have "gen ?b' = advance 3 (gen b)" by simp
    ultimately show ?thesis using run False by simp
  qed
qed

lemma self_draws_le: "self_draws n g k \<le> k"
proof (induction k arbitrary: g)
  case 0
  then show ?case by simp
next
  case (Suc k)
  show ?case using Suc [of "advance 2 g"] Suc [of "advance 3 g"] by (simp add: le_SucI)
qed

lemma random_loop:
  assumes inv: "builder_inv names g0 k b" and n: "0 < length names"
  shows "\<exists>b'. for_each (\<lambda>_. random_edge names) xs b = Inr b'
    \<and> builder_inv names g0 (k + length xs - self_draws (length names) (gen b) (length xs)) b'"
  using inv
proof (induction xs arbitrary: b k)
  case Nil
  then show ?case by simp
next
  case (Cons x xs)
  let ?n = "length names"
  from random_edge_step [OF Cons.prems n] obtain b1 where b1: "random_edge names b = Inr b1"
    and st: "if int_draws (gen b) (pos (gen b)) mod ?n = int_draws (gen b) (pos (gen b) + 1) mod ?n
        then builder_inv names g0 k b1 \<and> gen b1 = advance 2 (gen b)
        else builder_inv names g0 (Suc k) b1 \<and> gen b1 = advance 3 (gen b)"
    by blast
  show ?case
  proof (cases "int_draws (gen b) (pos (gen b)) mod ?n = int_draws (gen b) (pos (gen b) + 1) mod ?n")
    case True
    with st have i1: "builder_inv names g0 k b1" and g1: "gen b1 = advance 2 (gen b)" by simp_all
    from Cons.IH [OF i1] obtain b' where
      "for_each (\<lambda>_. random_edge names) xs b1 = Inr b'"
      "builder_inv names g0 (k + length xs - self_draws ?n (gen b1) (length xs)) b'"
      by blast
    moreover have "k + length (x # xs) - self_draws ?n (gen b) (length (x # xs))
        = k + length xs - self_draws ?n (gen b1) (length xs)"
      using True g1 by simp
    ultimately show ?thesis using b1 by simp
  next
    case False
    with st have i1: "builder_inv names g0 (Suc k) b1" and g1: "gen b1 = advance 3 (gen b)"
      by simp_all
    from Cons.IH [OF i1] obtain b' where
      "for_each (\<lambda>_. random_edge names) xs b1 = Inr b'"
      "builder_inv names g0 (Suc k + length xs - self_draws ?n (gen b1) (length xs)) b'"
      by blast
    moreover have "k + length (x # xs) - self_draws ?n (gen b) (length (x # xs))
        = Suc k + length xs - self_draws ?n (gen b1) (length xs)"
      using False g1 by simp
    ultimately show ?thesis using b1 by simp
  qed
qed

lemma random_edges_count:
  assumes "builder_inv names g0 0 b" "0 < length names"
  shows "\<exists>b'. random_edges names b = Inr b'
    \<and> builder_inv names g0 (200 - self_draws (length names) (gen b) 200) b'"
  using random_loop [OF assms, of "[0..<200]"] by (simp add: random_edges_def)


lemma add_entry_shape:
  assumes "length m = n" "\<forall>row\<in>set m. length row = n"
  shows "length (add_entry e m) = n \<and> (\<forall>row\<in>set (add_entry e m). length row = n)"
proof -
  obtain r c d where e: "e = (r, c, d)" by (cases e)
  have "\<forall>row\<in>set (m[r := (m ! r)[c := m ! r ! c + d]]). length row = n"
  proof (cases "r < length m")
    case True
    then have "length ((m ! r)[c := m ! r ! c + d]) = n" using assms(2) by simp
    moreover have "set (m[r := (m ! r)[c := m ! r ! c + d]])
        \<subseteq> insert ((m ! r)[c := m ! r ! c + d]) (set m)"
      by (rule set_update_subset_insert)
    ultimately show ?thesis using assms(2) by auto
  next
    case False
    then have "length m \<le> r" by simp
    then have "m[r := (m ! r)[c := m ! r ! c + d]] = m" by (rule list_update_beyond)
    then show ?thesis using assms(2) by (simp only:)
  qed
  then show ?thesis using assms e by (simp add: add_entry_def)
qed

lemma add_entry_nth:
  assumes "length m = n" "\<forall>row\<in>set m. length row = n" "r < n" "c < n" "t < n" "s < n"
  shows "add_entry (r, c, d) m ! t ! s = m ! t ! s + (if r = t \<and> c = s then d else 0)"
proof -
  have "length (m ! r) = n" using assms by simp
  then show ?thesis
    using assms by (auto simp: add_entry_def nth_list_update)
qed

lemma fold_add_entry_nth:
  assumes "\<forall>(r, c, d)\<in>set ts. r < n \<and> c < n"
    and "length m = n" "\<forall>row\<in>set m. length row = n" "t < n" "s < n"
  shows "fold add_entry ts m ! t ! s
    = m ! t ! s + sum_list (map (\<lambda>(r, c, d). d) (filter (\<lambda>(r, c, d). r = t \<and> c = s) ts))"
  using assms(1,2,3)
proof (induction ts arbitrary: m)
  case Nil
  then show ?case by simp
next
  case (Cons e ts)
  obtain r c d where e: "e = (r, c, d)" by (cases e)
  have rc: "r < n" "c < n" using Cons.prems(1) e by auto
  note sh = add_entry_shape [OF Cons.prems(2,3), of e]
  have rest: "\<forall>(r, c, d)\<in>set ts. r < n \<and> c < n" using Cons.prems(1) by simp
  have "fold add_entry (e # ts) m ! t ! s = fold add_entry ts (add_entry e m) ! t ! s" by simp
  also have "\<dots> = add_entry e m ! t ! s
      + sum_list (map (\<lambda>(r, c, d). d) (filter (\<lambda>(r, c, d). r = t \<and> c = s) ts))"
    using Cons.IH [OF rest] sh by blast
  also have "add_entry e m ! t ! s = m ! t ! s + (if r = t \<and> c = s then d else 0)"
    unfolding e using Cons.prems(2,3) rc assms(4,5) by (rule add_entry_nth)
  finally show ?case using e by simp
qed

lemma fold_add_entry_shape:
  assumes "length m = n" "\<forall>row\<in>set m. length row = n"
  shows "length (fold add_entry ts m) = n \<and> (\<forall>row\<in>set (fold add_entry ts m). length row = n)"
  using assms
proof (induction ts arbitrary: m)
  case Nil
  then show ?case by simp
next
  case (Cons e ts)
  note sh = add_entry_shape [OF Cons.prems, of e]
  show ?case using Cons.IH [of "add_entry e m"] sh by simp
qed

lemma coo_weight_sum:
  assumes "list_all2 (edge_rel names) ts es" "distinct names" "s < length names" "t < length names"
  shows "sum_list (map (\<lambda>(r, c, d). d) (filter (\<lambda>(r, c, d). r = t \<and> c = s) ts))
    = edge_weight_sum names es s t"
  using assms(1)
proof (induction rule: list_all2_induct)
  case Nil
  then show ?case by (simp add: edge_weight_sum_def)
next
  case (Cons x xs e es)
  obtain r c d where x: "x = (r, c, d)" by (cases x)
  from Cons.hyps(1) x have rel: "r < length names" "c < length names"
    "edge_source e = names ! c" "edge_target e = names ! r" "edge_weight e = d"
    by (simp_all add: edge_rel_def)
  have "(edge_source e = names ! s \<and> edge_target e = names ! t) \<longleftrightarrow> (r = t \<and> c = s)"
    using rel assms(2,3,4) by (auto simp: nth_eq_iff_index_eq)
  then show ?case
    using Cons.IH rel x by (simp add: edge_weight_sum_def)
qed

lemma assign_at_ok:
  assumes "\<forall>i\<in>set idxs. i < length a"
  shows "\<exists>a'. assign_at a idxs v = Inr a' \<and> length a' = length a"
  using assms by (simp add: assign_at_def list_all_iff fold_update_length)

lemma group_vector_ok:
  assumes "groups_ok names grp"
  shows "\<exists>vec. group_vector grp (length names) v1 v2 v3 v4 v5 v6 v7 = Inr vec
    \<and> length vec = length names"
proof -
  note g = groups_okD [OF assms]
  from assign_at_ok [of "housekeeping grp" "replicate (length names) 0" v1] g(6)
  obtain a1 where a1: "assign_at (replicate (length names) 0) (housekeeping grp) v1 = Inr a1"
    "length a1 = length names" by auto
  from assign_at_ok [of "ligand grp" a1 v2] g(3) a1(2)
  obtain a2 where a2: "assign_at a1 (ligand grp) v2 = Inr a2" "length a2 = length names" by auto
  from assign_at_ok [of "receptor grp" a2 v3] g(4) a2(2)
  obtain a3 where a3: "assign_at a2 (receptor grp) v3 = Inr a3" "length a3 = length names" by auto
  from assign_at_ok [of "target grp" a3 v4] g(5) a3(2)
  obtain a4 where a4: "assign_at a3 (target grp) v4 = Inr a4" "length a4 = length names" by auto
  from assign_at_ok [of "prog grp" a4 v5] g(1) a4(2)
  obtain a5 where a5: "assign_at a4 (prog grp) v5 = Inr a5" "length a5 = length names" by auto
  from assign_at_ok [of "lineage grp" a5 v6] g(2) a5(2)
  obtain a6 where a6: "assign_at a5 (lineage grp) v6 = Inr a6" "length a6 = length names" by auto
  from assign_at_ok [of "other grp" a6 v7] g(7) a6(2)
  obtain a7 where a7: "assign_at a6 (other grp) v7 = Inr a7" "length a7 = length names" by auto
  show ?thesis
    using a1 a2 a3 a4 a5 a6 a7 by (simp add: group_vector_def)
qed


lemma builder_inv_empty:
  "builder_inv names g 0 \<lparr>rows = [], cols = [], data = [], edge_list = [], gen = g\<rparr>"
proof -
  have "g = advance 0 g" by (simp add: advance_def)
  then show ?thesis by (auto simp: builder_inv_def coo_def)
qed

lemma builder_inv_bounds:
  assumes "builder_inv names g0 k b"
  shows "\<forall>(r, c, d)\<in>set (coo b). r < length names \<and> c < length names"
    and "list_all (\<lambda>r. r < length names) (rows b)"
    and "list_all (\<lambda>c. c < length names) (cols b)"
proof -
  from assms have la: "list_all2 (edge_rel names) (coo b) (edge_list b)"
    and lr: "length (rows b) = length (data b)" and lc: "length (cols b) = length (data b)"
    by (simp_all add: builder_inv_def)
  have each: "rows b ! i < length names \<and> cols b ! i < length names"
    if i: "i < length (data b)" for i
  proof -
    have "i < length (coo b)" using i lr lc by (simp add: coo_def)
    with la have "edge_rel names (coo b ! i) (edge_list b ! i)"
      by (simp add: list_all2_conv_all_nth)
    moreover have "coo b ! i = (rows b ! i, cols b ! i, data b ! i)"
      using i lr lc by (simp add: coo_def)
    ultimately show ?thesis by (simp add: edge_rel_def)
  qed
  show "\<forall>(r, c, d)\<in>set (coo b). r < length names \<and> c < length names"
  proof
    fix x assume "x \<in> set (coo b)"
    then obtain i where i: "i < length (coo b)" and x: "coo b ! i = x"
      by (auto simp: in_set_conv_nth)
    have il: "i < length (data b)" using i by (simp add: coo_def)
    have "x = (rows b ! i, cols b ! i, data b ! i)"
      using x il lr lc by (simp add: coo_def)
    then show "case x of (r, c, d) \<Rightarrow> r < length names \<and> c < length names"
      using each [OF il] by simp
  qed
  show "list_all (\<lambda>r. r < length names) (rows b)"
    using each lr by (simp add: list_all_length)
  show "list_all (\<lambda>c. c < length names) (cols b)"
    using each lc by (simp add: list_all_length)
qed

lemma builder_inv_random:
  assumes "builder_inv names g0 k b" "e \<in> set (edge_list b)" "is_random e"
  shows "- (5/100) \<le> edge_weight e \<and> edge_weight e < 5/100
    \<and> (distinct names \<longrightarrow> edge_source e \<noteq> edge_target e)"
proof -
  from assms(1) have la: "list_all2 (edge_rel names) (coo b) (edge_list b)"
    by (simp add: builder_inv_def)
  from assms(2) obtain i where i: "i < length (edge_list b)" and e: "edge_list b ! i = e"
    by (auto simp: in_set_conv_nth)
  from la i e have "edge_rel names (coo b ! i) e"
    by (auto simp: list_all2_conv_all_nth)
  then obtain r c d where rel: "r < length names" "c < length names"
    "edge_source e = names ! c" "edge_target e = names ! r" "edge_weight e = d"
    "r \<noteq> c" "- (5/100) \<le> d" "d < 5/100"
    using assms(3) by (cases "coo b ! i") (auto simp: edge_rel_def)
  then show ?thesis by (auto simp: nth_eq_iff_index_eq)
qed

text \<open>What a run of \<open>build_grn\<close> on a fitting catalogue computes.\<close>

lemma build_grn_result:
  assumes ok: "groups_ok names grp" and nl: "0 < n_lineages" and n: "0 < length names"
  shows "\<exists>b1 b bias decay noise.
      structured_edges names grp n_lineages tfs
          \<lparr>rows = [], cols = [], data = [], edge_list = [], gen = g\<rparr> = Inr b1
    \<and> builder_inv names g 0 b1
    \<and> builder_inv names g (200 - self_draws (length names) (gen b1) 200) b
    \<and> build_grn g names grp n_lineages tfs
        = Inr (\<lparr>grn_W = fold add_entry (coo b)
                          (replicate (length names) (replicate (length names) 0)),
                grn_bias = bias, grn_decay = decay, grn_noise = noise,
                grn_edges = edge_list b\<rparr>, gen b)
    \<and> length bias = length names \<and> length decay = length names
    \<and> length noise = length names"
proof -
  let ?b0 = "\<lparr>rows = [], cols = [], data = [], edge_list = [], gen = g\<rparr>"
  from maintainsD [OF structured_edges_maintains [OF ok nl, of g 0 tfs] builder_inv_empty]
  obtain b1 where b1: "structured_edges names grp n_lineages tfs ?b0 = Inr b1"
    and i1: "builder_inv names g 0 b1" by blast
  from random_edges_count [OF i1 n] obtain b where b: "random_edges names b1 = Inr b"
    and ib: "builder_inv names g (200 - self_draws (length names) (gen b1) 200) b" by blast
  note bd = builder_inv_bounds [OF ib]
  have w: "csr_matrix (data b) (rows b) (cols b) (length names)
      = Inr (fold add_entry (coo b) (replicate (length names) (replicate (length names) 0)))"
    using ib bd(2,3) by (simp add: csr_matrix_def builder_inv_def coo_def)
  from group_vector_ok [OF ok] obtain bias where
    bias: "group_vector grp (length names) (6/10) (2/10) (2/10) (5/100) (5/100) (5/100) (1/10)
             = Inr bias" "length bias = length names" by blast
  from group_vector_ok [OF ok] obtain decay where
    decay: "group_vector grp (length names) (1/10) (2/10) (2/10) (2/10) (3/10) (3/10) (2/10)
             = Inr decay" "length decay = length names" by blast
  from group_vector_ok [OF ok] obtain noise where
    noise: "group_vector grp (length names) (5/100) (6/100) (6/100) (8/100) (1/10) (1/10) (8/100)
             = Inr noise" "length noise = length names" by blast
  have "build_grn g names grp n_lineages tfs
        = Inr (\<lparr>grn_W = fold add_entry (coo b)
                          (replicate (length names) (replicate (length names) 0)),
                grn_bias = bias, grn_decay = decay, grn_noise = noise,
                grn_edges = edge_list b\<rparr>, gen b)"
    by (simp only: build_grn_def Let_def b1 b w bias(1) decay(1) noise(1) bind_res.simps)
  then show ?thesis using b1 i1 ib bias(2) decay(2) noise(2) by blast
qed

lemma self_draws_const:
  assumes "\<And>i. int_draws g i = c"
  shows "self_draws n g k = k"
  using assms
proof (induction k arbitrary: g)
  case 0
  then show ?case by simp
next
  case (Suc k)
  have "self_draws n (advance 2 g) k = k"
    by (rule Suc.IH) (simp add: Suc.prems)
  then show ?case by (simp add: Suc.prems)
qed


lemma main_groups_ok: "groups_ok (fst build_gene_names) (snd build_gene_names)"
  by (auto simp: groups_ok_def list_all_iff build_gene_names_groups build_gene_names_length
      simp del: upt_rec_numeral)

text \<open>The adjacency that \<open>build_grn\<close> returns, entry by entry.\<close>

lemma build_grn_adjacency:
  assumes "groups_ok gene_names grp" and "0 < n_lineages" and "distinct gene_names"
    and "0 < length gene_names"
  shows "\<exists>net g'. build_grn g gene_names grp n_lineages lineage_tfs_per = Inr (net, g')
    \<and> length (grn_bias net) = length gene_names
    \<and> length (grn_decay net) = length gene_names
    \<and> length (grn_noise net) = length gene_names
    \<and> length (grn_W net) = length gene_names
    \<and> (\<forall>row\<in>set (grn_W net). length row = length gene_names)
    \<and> (\<forall>s<length gene_names. \<forall>t<length gene_names.
          grn_W net ! t ! s = edge_weight_sum gene_names (grn_edges net) s t)"
proof -
  let ?n = "length gene_names"
  let ?z = "replicate ?n (replicate ?n (0::real))"
  from build_grn_result [OF assms(1,2,4), of lineage_tfs_per g]
  obtain b1 b bias decay noise where
    i1: "builder_inv gene_names g 0 b1"
    and ib: "builder_inv gene_names g (200 - self_draws ?n (gen b1) 200) b"
    and run: "build_grn g gene_names grp n_lineages lineage_tfs_per
        = Inr (\<lparr>grn_W = fold add_entry (coo b) ?z,
                grn_bias = bias, grn_decay = decay, grn_noise = noise,
                grn_edges = edge_list b\<rparr>, gen b)"
    and len: "length bias = ?n" "length decay = ?n" "length noise = ?n"
    by blast
  have la: "list_all2 (edge_rel gene_names) (coo b) (edge_list b)"
    using ib by (simp add: builder_inv_def)
  have zs: "length ?z = ?n" "\<forall>row\<in>set ?z. length row = ?n" by simp_all
  note sh = fold_add_entry_shape [OF zs, of "coo b"]
  have ent: "fold add_entry (coo b) ?z ! t ! s = edge_weight_sum gene_names (edge_list b) s t"
    if s: "s < ?n" and t: "t < ?n" for s t
  proof -
    have "fold add_entry (coo b) ?z ! t ! s
      = ?z ! t ! s
        + sum_list (map (\<lambda>(r, c, d). d) (filter (\<lambda>(r, c, d). r = t \<and> c = s) (coo b)))"
      using builder_inv_bounds(1) [OF ib] s t
      by (intro fold_add_entry_nth) simp_all
    also have "\<dots> = edge_weight_sum gene_names (edge_list b) s t"
      using coo_weight_sum [OF la assms(3) s t] s t by simp
    finally show ?thesis .
  qed
  show ?thesis using run len sh ent by simp
qed

text \<open>
  C4. Whenever construction rules (the random edges included) add several edges with
  the same source and target, the materialised adjacency entry of the pair is the sum
  of the weights of all of them: for every pair of genes \<open>(s, t)\<close>, the entry stored at
  row \<open>t\<close>, column \<open>s\<close> equals the sum of the weights of all the added edges from \<open>s\<close> to
  \<open>t\<close>.
\<close>

theorem adjacency_accumulates_duplicates:
  assumes "groups_ok gene_names grp" and "0 < n_lineages" and "distinct gene_names"
    and "s < length gene_names" and "t < length gene_names"
  shows "\<exists>net g'. build_grn g gene_names grp n_lineages lineage_tfs_per = Inr (net, g')
    \<and> grn_W net ! t ! s = edge_weight_sum gene_names (grn_edges net) s t"
proof -
  have n: "0 < length gene_names" using assms(4) by (cases gene_names) simp_all
  from build_grn_adjacency [OF assms(1,2,3) n, of g lineage_tfs_per] assms(4,5)
  show ?thesis by blast
qed

theorem adjacency_accumulates_duplicates_witness:
  "groups_ok (fst build_gene_names) (snd build_gene_names) \<and> 0 < main_n_lineages
   \<and> distinct (fst build_gene_names)
   \<and> (0::nat) < length (fst build_gene_names) \<and> (1::nat) < length (fst build_gene_names)
   \<and> (\<exists>net g'. build_grn zero_rng (fst build_gene_names) (snd build_gene_names)
                  main_n_lineages main_lineage_tfs_per = Inr (net, g')
         \<and> grn_W net ! 1 ! 0 = edge_weight_sum (fst build_gene_names) (grn_edges net) 0 1)
   \<and> csr_matrix [2/10, 3/100] [0, 0] [0, 0] 1 = Inr [[23/100]]"
proof -
  have h: "(0::nat) < main_n_lineages" by (simp add: main_n_lineages_def)
  have s: "(0::nat) < length (fst build_gene_names)"
    and t: "(1::nat) < length (fst build_gene_names)"
    by (simp_all add: build_gene_names_length)
  have c: "csr_matrix [2/10, 3/100] [0, 0] [0, 0] 1 = Inr [[23/100]]"
    by (simp add: csr_matrix_def add_entry_def)
  show ?thesis
    using adjacency_accumulates_duplicates [OF main_groups_ok h names_distinct s t,
        of zero_rng main_lineage_tfs_per]
      main_groups_ok h names_distinct s t c
    by blast
qed

text \<open>
  C2 (as amended). For every state of the random source, network construction makes
  exactly 200 draws of a (source, target) pair beyond the structured rules. A draw of
  two different genes adds one edge tagged as random, from the first gene to the
  second, with a weight in \<open>[-0.05, 0.05)\<close>; a draw of the same gene twice adds nothing.
  So the number of edges tagged as random is 200 minus the number of such draws: at
  most 200, and not always 200.
\<close>

theorem random_edges_at_most_200:
  assumes "groups_ok gene_names grp" and "0 < n_lineages" and "gene_names \<noteq> []"
  shows "\<exists>b1 net g'.
      structured_edges gene_names grp n_lineages lineage_tfs_per
          \<lparr>rows = [], cols = [], data = [], edge_list = [], gen = g\<rparr> = Inr b1
    \<and> build_grn g gene_names grp n_lineages lineage_tfs_per = Inr (net, g')
    \<and> length (filter is_random (grn_edges net))
        = 200 - self_draws (length gene_names) (gen b1) 200
    \<and> length (filter is_random (grn_edges net)) \<le> 200
    \<and> (\<forall>e\<in>set (grn_edges net). is_random e \<longrightarrow>
          - (5/100) \<le> edge_weight e \<and> edge_weight e < 5/100
          \<and> (distinct gene_names \<longrightarrow> edge_source e \<noteq> edge_target e))"
proof -
  let ?n = "length gene_names"
  have n: "0 < ?n" using assms(3) by simp
  from build_grn_result [OF assms(1,2) n, of lineage_tfs_per g]
  obtain b1 b bias decay noise where
    b1: "structured_edges gene_names grp n_lineages lineage_tfs_per
          \<lparr>rows = [], cols = [], data = [], edge_list = [], gen = g\<rparr> = Inr b1"
    and ib: "builder_inv gene_names g (200 - self_draws ?n (gen b1) 200) b"
    and run: "build_grn g gene_names grp n_lineages lineage_tfs_per
        = Inr (\<lparr>grn_W = fold add_entry (coo b) (replicate ?n (replicate ?n 0)),
                grn_bias = bias, grn_decay = decay, grn_noise = noise,
                grn_edges = edge_list b\<rparr>, gen b)"
    by blast
  have cnt: "length (filter is_random (edge_list b)) = 200 - self_draws ?n (gen b1) 200"
    using ib by (simp add: builder_inv_def)
  have rnd: "\<forall>e\<in>set (edge_list b). is_random e \<longrightarrow>
          - (5/100) \<le> edge_weight e \<and> edge_weight e < 5/100
          \<and> (distinct gene_names \<longrightarrow> edge_source e \<noteq> edge_target e)"
    using builder_inv_random [OF ib] by blast
  show ?thesis using b1 run cnt rnd by simp
qed

theorem random_edges_at_most_200_witness:
  "groups_ok (fst build_gene_names) (snd build_gene_names) \<and> 0 < main_n_lineages
   \<and> fst build_gene_names \<noteq> []
   \<and> (\<exists>net g'. build_grn zero_rng (fst build_gene_names) (snd build_gene_names)
                  main_n_lineages main_lineage_tfs_per = Inr (net, g')
         \<and> length (filter is_random (grn_edges net)) \<le> 200
         \<and> (\<forall>e\<in>set (grn_edges net). is_random e \<longrightarrow>
               - (5/100) \<le> edge_weight e \<and> edge_weight e < 5/100))"
proof -
  have h: "(0::nat) < main_n_lineages" by (simp add: main_n_lineages_def)
  have ne: "fst build_gene_names \<noteq> []"
    using build_gene_names_length by fastforce
  show ?thesis
    using random_edges_at_most_200 [OF main_groups_ok h ne, of main_lineage_tfs_per zero_rng]
      main_groups_ok h ne
    by blast
qed

text \<open>
  The claim as stated fails: from the generator state whose integer outcomes are all
  equal, every one of the 200 draws names the same gene twice, and the constructed
  network has no edge tagged as random.
\<close>

theorem random_edges_exactly_200_counterexample:
  "\<not> (\<exists>net g'. build_grn zero_rng (fst build_gene_names) (snd build_gene_names)
                  main_n_lineages main_lineage_tfs_per = Inr (net, g')
         \<and> length (filter is_random (grn_edges net)) = 200)"
proof -
  let ?names = "fst build_gene_names"
  have h: "(0::nat) < main_n_lineages" by (simp add: main_n_lineages_def)
  have n: "0 < length ?names" by (simp add: build_gene_names_length)
  from build_grn_result [OF main_groups_ok h n, of main_lineage_tfs_per zero_rng]
  obtain b1 b bias decay noise where
    i1: "builder_inv ?names zero_rng 0 b1"
    and ib: "builder_inv ?names zero_rng (200 - self_draws (length ?names) (gen b1) 200) b"
    and run: "build_grn zero_rng ?names (snd build_gene_names) main_n_lineages
          main_lineage_tfs_per
        = Inr (\<lparr>grn_W = fold add_entry (coo b)
                    (replicate (length ?names) (replicate (length ?names) 0)),
                grn_bias = bias, grn_decay = decay, grn_noise = noise,
                grn_edges = edge_list b\<rparr>, gen b)"
    by blast
  from i1 obtain j where "gen b1 = advance j zero_rng" by (auto simp: builder_inv_def)
  then have "\<And>i. int_draws (gen b1) i = 0" by (simp add: zero_rng_def)
  then have "self_draws (length ?names) (gen b1) 200 = 200" by (rule self_draws_const)
  then have "length (filter is_random (edge_list b)) = 0"
    using ib by (simp add: builder_inv_def)
  then show ?thesis using run by auto
qed

section \<open>Properties of the simulation\<close>

lemma update_state_mode [simp]:
  "update_state (p\<lparr>p_neighbor_mode := m\<rparr>) = update_state p"
  by (intro ext) (simp add: update_state_def Let_def split_beta cong: if_cong)

lemma sim_step_mode [simp]: "sim_step (p\<lparr>p_neighbor_mode := m\<rparr>) = sim_step p"
  by (intro ext) (simp add: sim_step_def Let_def split_beta cong: if_cong)

lemma shapes_ok_mode [simp]: "shapes_ok (p\<lparr>p_neighbor_mode := m\<rparr>) = shapes_ok p"
  by (simp add: shapes_ok_def)

lemma mean_axis0_nth:
  assumes "j < n_cols"
  shows "mean_axis0 a n_cols ! j = sum_list (map (\<lambda>row. row ! j) a) / real (length a)"
  using assms by (simp add: mean_axis0_def)

text \<open>
  C9. If neighbour mode is requested but \<open>neighbor_k \<le> 0\<close> or the sample has at most one
  cell, the simulator raises no error on that account and computes ligand
  availability exactly as in the mode without neighbours: no neighbour is drawn, the
  whole simulation equals the one in mode \<open>none\<close>, and the availability of a ligand
  is, for every cell, the mean over the cells of \<open>max(x[:, ligand], 0)\<close>.
\<close>

theorem neighbor_mode_fallback:
  assumes "p_neighbor_mode p = ''random''"
    and "p_neighbor_k p \<le> 0 \<or> p_n_cells p \<le> 1"
  shows "select_neighbors (p_neighbor_mode p) (p_neighbor_k p) (p_n_cells p) g = (None, g)
    \<and> select_neighbors (p_neighbor_mode p) (p_neighbor_k p) (p_n_cells p) g
        = select_neighbors ''none'' (p_neighbor_k p) (p_n_cells p) g
    \<and> simulate_sample g p = simulate_sample g (p\<lparr>p_neighbor_mode := ''none''\<rparr>)
    \<and> (\<forall>x lig_idx c j. c < length x \<and> j < length lig_idx \<longrightarrow>
          ligand_availability x lig_idx
              (fst (select_neighbors (p_neighbor_mode p) (p_neighbor_k p) (p_n_cells p) g))
              (p_neighbor_mix p) ! c ! j
            = sum_list (map (\<lambda>row. max (row ! (lig_idx ! j)) 0) x) / real (length x))"
proof -
  have a: "select_neighbors (p_neighbor_mode p) (p_neighbor_k p) (p_n_cells p) g = (None, g)"
    using assms by (auto simp: select_neighbors_def)
  have b: "select_neighbors ''none'' (p_neighbor_k p) (p_n_cells p) g = (None, g)"
    by (simp add: select_neighbors_def)
  have c: "simulate_sample g p = simulate_sample g (p\<lparr>p_neighbor_mode := ''none''\<rparr>)"
    using assms by (simp add: simulate_sample_def Let_def select_neighbors_def)
  have d: "ligand_availability x lig_idx None (p_neighbor_mix p) ! c ! j
            = sum_list (map (\<lambda>row. max (row ! (lig_idx ! j)) 0) x) / real (length x)"
    if "c < length x" "j < length lig_idx" for x lig_idx c j
    using that
    by (simp add: ligand_availability_def Let_def mean_axis0_nth ligand_positive_def comp_def)
  show ?thesis using a b c d by simp
qed






lemma hill_mat_length: "hill_mat x k n = Inr h \<Longrightarrow> length h = length x"
  by (auto simp: hill_mat_def bind_res_Inr dest: map_res_Inr)















lemma map_res_total:
  assumes "\<And>x. x \<in> set xs \<Longrightarrow> \<exists>y. f x = Inr y"
  shows "\<exists>ys. map_res f xs = Inr ys"
  using assms
proof (induction xs)
  case Nil
  then show ?case by simp
next
  case (Cons a xs)
  from Cons.prems obtain y where y: "f a = Inr y" by auto
  from Cons obtain ys where "map_res f xs = Inr ys" by auto
  with y show ?case by simp
qed

lemma hill_entry_total:
  assumes "0 < k_pow" "0 < n"
  shows "\<exists>v. hill_entry k_pow n x = Inr v"
proof -
  have "\<exists>x_pow. np_power (max x 0) n = Inr x_pow \<and> 0 \<le> x_pow"
    using assms(2) by (cases "0 < max x 0") (simp_all add: np_power_def)
  then obtain x_pow where xp: "np_power (max x 0) n = Inr x_pow" and nn: "0 \<le> x_pow"
    by blast
  have "0 < k_pow + x_pow + hill_eps" using assms(1) nn by (simp add: hill_eps_def add_pos_nonneg)
  then show ?thesis using xp by (simp add: hill_entry_def Let_def)
qed

lemma hill_mat_total:
  assumes "0 < k" "0 < n"
  shows "\<exists>h. hill_mat x k n = Inr h"
proof -
  have kp: "0 < k powr n" using assms(1) by simp
  have "\<exists>h. map_res (map_res (hill_entry (k powr n) n)) x = Inr h"
    by (intro map_res_total hill_entry_total kp assms(2))
  then show ?thesis using assms(1) by (simp add: hill_mat_def py_pow_def)
qed

lemma update_state_total:
  assumes "list_all (\<lambda>s. 0 \<le> s) (grn_noise (p_grn p))" "0 \<le> p_dt p"
    "0 < p_hill_k p" "0 < p_hill_n p"
  shows "\<exists>r. update_state p nb x g = Inr r"
proof -
  from hill_mat_total [OF assms(3,4)] obtain h where
    h: "hill_mat x (p_hill_k p) (p_hill_n p) = Inr h" by blast
  from hill_mat_total [OF assms(3,4)] obtain ract where
    r: "hill_mat (map (\<lambda>row. map (\<lambda>i. row ! i) (receptor (p_groups p))) x)
          (p_hill_k p) (p_hill_n p) = Inr ract" by blast
  obtain z g' where z: "rng_normal 0 (grn_noise (p_grn p)) (length x) g = Inr (z, g')"
    using assms(1) by (simp add: rng_normal_def)
  show ?thesis
    using assms(2) by (simp add: update_state_def Let_def h r z)
qed

lemma init_group_total:
  assumes "\<forall>i\<in>set idxs. i < n_genes" "0 \<le> scale"
  shows "\<exists>r. init_group n_cells n_genes idxs loc scale s = Inr r"
proof -
  obtain x g where s: "s = (x, g)" by (cases s)
  obtain vals g' where v: "rng_normal loc (replicate (length idxs) scale) n_cells g = Inr (vals, g')"
    using assms(2) by (simp add: rng_normal_def list_all_iff)
  have "\<exists>x'. set_cols x n_genes idxs vals = Inr x'"
    using assms(1) by (simp add: set_cols_def list_all_iff)
  then show ?thesis using s v by (auto simp: init_group_def)
qed

lemma initial_state_total:
  assumes "list_all (\<lambda>i. i < n_genes)
     (prog grp @ lineage grp @ ligand grp @ receptor grp @ target grp @ housekeeping grp
        @ other grp)"
  shows "\<exists>r. initial_state g n_cells n_genes grp x_max = Inr r"
proof -
  let ?x0 = "replicate n_cells (replicate n_genes (0::real))"
  from assms have b: "\<forall>i\<in>set (prog grp). i < n_genes" "\<forall>i\<in>set (lineage grp). i < n_genes"
    "\<forall>i\<in>set (ligand grp). i < n_genes" "\<forall>i\<in>set (receptor grp). i < n_genes"
    "\<forall>i\<in>set (target grp). i < n_genes" "\<forall>i\<in>set (housekeeping grp). i < n_genes"
    "\<forall>i\<in>set (other grp). i < n_genes"
    by (auto simp: list_all_iff)
  have p1: "0 \<le> (1/10 :: real)" and p2: "0 \<le> (5/100 :: real)" by simp_all
  from init_group_total [OF b(1) p1, of n_cells "15/10" "(?x0, g)"]
  obtain s1 where s1: "init_group n_cells n_genes (prog grp) (15/10) (1/10) (?x0, g) = Inr s1"
    by blast
  from init_group_total [OF b(2) p2, of n_cells "1/10" s1]
  obtain s2 where s2: "init_group n_cells n_genes (lineage grp) (1/10) (5/100) s1 = Inr s2"
    by blast
  from init_group_total [OF b(3) p2, of n_cells "2/10" s2]
  obtain s3 where s3: "init_group n_cells n_genes (ligand grp) (2/10) (5/100) s2 = Inr s3"
    by blast
  from init_group_total [OF b(4) p2, of n_cells "2/10" s3]
  obtain s4 where s4: "init_group n_cells n_genes (receptor grp) (2/10) (5/100) s3 = Inr s4"
    by blast
  from init_group_total [OF b(5) p2, of n_cells "1/10" s4]
  obtain s5 where s5: "init_group n_cells n_genes (target grp) (1/10) (5/100) s4 = Inr s5"
    by blast
  from init_group_total [OF b(6) p1, of n_cells 1 s5]
  obtain s6 where s6: "init_group n_cells n_genes (housekeeping grp) 1 (1/10) s5 = Inr s6"
    by blast
  from init_group_total [OF b(7) p2, of n_cells "1/10" s6]
  obtain s7 where s7: "init_group n_cells n_genes (other grp) (1/10) (5/100) s6 = Inr s7"
    by blast
  show ?thesis
    by (simp only: initial_state_def s1 s2 s3 s4 s5 s6 s7 bind_res.simps split_beta) blast
qed

lemma for_each_upt_total:
  assumes step: "\<And>k s. k < j \<Longrightarrow> J k s \<Longrightarrow> \<exists>s'. f k s = Inr s' \<and> J (Suc k) s'"
    and start: "J 0 s"
  shows "\<exists>s'. for_each f [0..<j] s = Inr s' \<and> J j s'"
  using step
proof (induction j)
  case 0
  then show ?case using start by simp
next
  case (Suc j)
  have "\<exists>s'. for_each f [0..<j] s = Inr s' \<and> J j s'"
    by (rule Suc.IH) (simp add: Suc.prems)
  then obtain s1 where s1: "for_each f [0..<j] s = Inr s1" and j1: "J j s1" by blast
  from Suc.prems [of j s1] j1 obtain s2 where "f j s1 = Inr s2" "J (Suc j) s2" by auto
  then show ?case using s1 by (simp add: for_each_append)
qed

lemma snapshot_index_arith:
  fixes q k n_tp :: nat
  assumes "0 < q" "k < (n_tp - 1) * q" "Suc k mod q = 0"
  shows "Suc (k div q) < n_tp" and "Suc k div q = Suc (k div q)"
proof -
  from assms(3) have "q dvd Suc k" by (simp add: mod_eq_0_iff_dvd)
  then obtain m where m: "Suc k = q * m" by (auto simp: dvd_def)
  have mpos: "0 < m" using m by (cases m) simp_all
  then obtain m' where m': "m = Suc m'" by (cases m) simp_all
  have e: "q * m' + q = Suc k" unfolding m m' by simp
  have kd: "k div q = m'"
  proof (rule div_nat_eqI)
    show "q * m' \<le> k" using e assms(1) by linarith
    show "k < q * Suc m'" using e by simp
  qed
  have "q * m \<le> (n_tp - 1) * q" using m assms(2) by linarith
  then have "q * m \<le> q * (n_tp - 1)" by (simp only: mult.commute)
  then have "m \<le> n_tp - 1" using assms(1) by (simp only: mult_le_cancel1)
  then show "Suc (k div q) < n_tp" unfolding kd m' by linarith
  have "Suc k div q = m" unfolding m using assms(1) by simp
  then show "Suc k div q = Suc (k div q)" unfolding kd m' .
qed


lemma sim_step_total:
  assumes rdy: "sim_ready p" and q: "0 < p_steps_per_tp p"
    and k: "k < (p_n_timepoints p - 1) * nat (p_steps_per_tp p)"
    and idx: "st_snapshot_idx s = Suc (k div nat (p_steps_per_tp p))"
  shows "\<exists>s'. sim_step p nb k s = Inr s'
    \<and> st_snapshot_idx s' = Suc (Suc k div nat (p_steps_per_tp p))"
proof -
  let ?q = "nat (p_steps_per_tp p)"
  have qpos: "0 < ?q" using q by simp
  from rdy have "list_all (\<lambda>s. 0 \<le> s) (grn_noise (p_grn p))" "0 \<le> p_dt p"
    "0 < p_hill_k p" "0 < p_hill_n p"
    by (simp_all add: sim_ready_def)
  from update_state_total [OF this, of nb "st_x s" "st_gen s"]
  obtain x' g' where up: "update_state p nb (st_x s) (st_gen s) = Inr (x', g')" by force
  have cond: "((int k + 1) mod p_steps_per_tp p = 0) = (Suc k mod ?q = 0)"
  proof -
    have "int (Suc k mod ?q) = int (Suc k) mod int ?q" by (rule zmod_int)
    also have "\<dots> = (int k + 1) mod p_steps_per_tp p" using q by (simp add: add.commute)
    finally have "int (Suc k mod ?q) = (int k + 1) mod p_steps_per_tp p" .
    then show ?thesis by (metis of_nat_eq_0_iff)
  qed
  show ?thesis
  proof (cases "Suc k mod ?q = 0")
    case True
    note ar = snapshot_index_arith [OF qpos k True]
    have "st_snapshot_idx s < p_n_timepoints p" using ar(1) idx by simp
    then obtain snaps where
      "set_snapshot (st_snapshots s) (p_n_timepoints p) (st_snapshot_idx s) x' = Inr snaps"
      by (simp add: set_snapshot_def)
    then show ?thesis using up cond True ar(2) idx by (simp add: sim_step_def)
  next
    case False
    have "Suc k div ?q = k div ?q" using False by (simp add: div_Suc)
    then show ?thesis using up cond False idx by (simp add: sim_step_def)
  qed
qed

text \<open>On ready arguments the simulation returns a snapshot tensor.\<close>

lemma simulate_sample_total:
  assumes rdy: "sim_ready p"
  shows "\<exists>snapshots g'. simulate_sample g p = Inr (snapshots, g')"
proof -
  let ?n = "length (grn_bias (p_grn p))"
  let ?z = "replicate (p_n_cells p) (replicate (p_n_timepoints p) (replicate ?n (0::real)))"
  from rdy have sh: "shapes_ok p" and tp: "0 < p_n_timepoints p"
    and grp: "list_all (\<lambda>i. i < ?n)
          (prog (p_groups p) @ lineage (p_groups p) @ ligand (p_groups p)
             @ receptor (p_groups p) @ target (p_groups p) @ housekeeping (p_groups p)
             @ other (p_groups p))"
    by (simp_all add: sim_ready_def)
  from initial_state_total [OF grp, of g "p_n_cells p" "p_x_max p"]
  obtain x g1 where init: "initial_state g (p_n_cells p) ?n (p_groups p) (p_x_max p) = Inr (x, g1)"
    by force
  obtain snaps0 where s0: "set_snapshot ?z (p_n_timepoints p) 0 x = Inr snaps0"
    using tp by (simp add: set_snapshot_def)
  obtain nb g2 where nb: "select_neighbors (p_neighbor_mode p) (p_neighbor_k p) (p_n_cells p) g1
      = (nb, g2)" by force
  let ?s0 = "\<lparr>st_x = x, st_snapshots = snaps0, st_snapshot_idx = 1, st_gen = g2\<rparr>"
  let ?total = "nat ((int (p_n_timepoints p) - 1) * p_steps_per_tp p)"
  have "\<exists>s. for_each (sim_step p nb) [0..<?total] ?s0 = Inr s"
  proof (cases "0 < p_steps_per_tp p")
    case True
    let ?q = "nat (p_steps_per_tp p)"
    have tot: "?total = (p_n_timepoints p - 1) * ?q"
    proof -
      have nn: "0 \<le> int (p_n_timepoints p) - 1" using tp by simp
      have "?total = nat (int (p_n_timepoints p) - 1) * ?q"
        using nn by (rule nat_mult_distrib)
      also have "nat (int (p_n_timepoints p) - 1) = p_n_timepoints p - 1" by simp
      finally show ?thesis .
    qed
    have "\<exists>s'. for_each (sim_step p nb) [0..<?total] ?s0 = Inr s'
        \<and> st_snapshot_idx s' = Suc (?total div ?q)"
    proof (rule for_each_upt_total
          [where J = "\<lambda>k (s :: sim_state). st_snapshot_idx s = Suc (k div ?q)"])
      fix k and s :: sim_state
      assume "k < ?total" "st_snapshot_idx s = Suc (k div ?q)"
      then show "\<exists>s'. sim_step p nb k s = Inr s' \<and> st_snapshot_idx s' = Suc (Suc k div ?q)"
        using sim_step_total [OF rdy True, of k s nb] tot by simp
    next
      show "st_snapshot_idx ?s0 = Suc (0 div ?q)" by simp
    qed
    then show ?thesis by blast
  next
    case False
    have "(int (p_n_timepoints p) - 1) * p_steps_per_tp p \<le> 0"
      using False tp by (simp add: mult_nonneg_nonpos)
    then have "?total = 0" by simp
    then show ?thesis by simp
  qed
  then obtain s where loop: "for_each (sim_step p nb) [0..<?total] ?s0 = Inr s" by blast
  have "simulate_sample g p = Inr (st_snapshots s, st_gen s)"
    using sh loop by (simp add: simulate_sample_def Let_def init s0 nb)
  then show ?thesis by blast
qed


lemma example_params_ready_no_neighbors: "sim_ready (example_params\<lparr>p_neighbor_k := 0\<rparr>)"
  by (simp add: sim_ready_def shapes_ok_def example_params_def)



theorem neighbor_mode_fallback_witness:
  "p_neighbor_mode (example_params\<lparr>p_neighbor_k := 0\<rparr>) = ''random''
   \<and> (p_neighbor_k (example_params\<lparr>p_neighbor_k := 0\<rparr>) \<le> 0
        \<or> p_n_cells (example_params\<lparr>p_neighbor_k := 0\<rparr>) \<le> 1)
   \<and> simulate_sample zero_rng (example_params\<lparr>p_neighbor_k := 0\<rparr>)
       = simulate_sample zero_rng (example_params\<lparr>p_neighbor_k := 0, p_neighbor_mode := ''none''\<rparr>)
   \<and> (\<exists>snapshots g'. simulate_sample zero_rng (example_params\<lparr>p_neighbor_k := 0\<rparr>)
                         = Inr (snapshots, g'))
   \<and> ligand_availability [[1, 2], [3, - 4]] [1]
        (fst (select_neighbors ''random'' 0 2 zero_rng)) 1 ! 0 ! 0 = 1"
proof -
  let ?p = "example_params\<lparr>p_neighbor_k := 0\<rparr>"
  let ?x = "[[1, 2], [3, - 4 :: real]]"
  have m: "p_neighbor_mode ?p = ''random''" by (simp add: example_params_def)
  have k: "p_neighbor_k ?p \<le> 0 \<or> p_n_cells ?p \<le> 1" by simp
  note th = neighbor_mode_fallback [OF m k, of zero_rng]
  have v: "p_neighbor_k ?p = 0" "p_n_cells ?p = 2" "p_neighbor_mix ?p = 1"
    by (simp_all add: example_params_def)
  note eq = th [THEN conjunct2, THEN conjunct2, THEN conjunct1]
  note lg = th [THEN conjunct2, THEN conjunct2, THEN conjunct2, rule_format,
      of 0 ?x 0 "[1]"]
  have idx: "0 < length ?x \<and> 0 < length [1::nat]" by simp
  have "ligand_availability ?x [1]
          (fst (select_neighbors (p_neighbor_mode ?p) (p_neighbor_k ?p) (p_n_cells ?p) zero_rng))
          (p_neighbor_mix ?p) ! 0 ! 0
        = sum_list (map (\<lambda>row. max (row ! ([1] ! 0)) 0) ?x) / real (length ?x)"
    using idx by (rule lg)
  also have "\<dots> = 1" by simp
  finally have lig: "ligand_availability ?x [1]
        (fst (select_neighbors ''random'' 0 2 zero_rng)) 1 ! 0 ! 0 = 1"
    by (simp only: m v)
  note ret = simulate_sample_total [OF example_params_ready_no_neighbors, of zero_rng]
  from m k eq ret lig show ?thesis by (intro conjI)
qed


lemma sum_list_map2_nth:
  assumes "length xs = length ys"
  shows "sum_list (map2 f xs ys) = (\<Sum>i<length xs. f (xs ! i) (ys ! i))"
proof -
  have "map2 f xs ys = map (\<lambda>i. f (xs ! i) (ys ! i)) [0..<length xs]"
    using assms by (auto intro!: nth_equalityI)
  then have "sum_list (map2 f xs ys) = sum_list (map (\<lambda>i. f (xs ! i) (ys ! i)) [0..<length xs])"
    by (simp only:)
  also have "\<dots> = (\<Sum>i<length xs. f (xs ! i) (ys ! i))"
    by (simp add: interv_sum_list_conv_sum_set_nat atLeast0LessThan)
  finally show ?thesis .
qed

lemma matmul_nth:
  assumes "c < length a" "j < n" "length (a ! c) = length b"
  shows "matmul a b n ! c ! j = (\<Sum>s<length b. a ! c ! s * b ! s ! j)"
proof -
  have "matmul a b n ! c ! j = sum_list (map2 (\<lambda>v b_row. v * b_row ! j) (a ! c) b)"
    using assms(1,2) by (simp add: matmul_def)
  also have "\<dots> = (\<Sum>s<length (a ! c). a ! c ! s * b ! s ! j)"
    using assms(3) by (rule sum_list_map2_nth)
  finally show ?thesis using assms(3) by simp
qed

lemma dense_transpose_nth:
  "s < n \<Longrightarrow> t < length m \<Longrightarrow> dense_transpose n m ! s ! t = m ! t ! s"
  by (simp add: dense_transpose_def)

lemma dense_transpose_length: "length (dense_transpose n m) = n"
  by (simp add: dense_transpose_def)

lemma hill_mat_entry:
  assumes "hill_mat x k n = Inr h" "c < length x" "s < length (x ! c)"
  shows "length (h ! c) = length (x ! c) \<and> hill (x ! c ! s) k n = Inr (h ! c ! s)"
proof -
  from assms(1) obtain k_pow where kp: "py_pow k n = Inr k_pow"
    and rows: "map_res (map_res (hill_entry k_pow n)) x = Inr h"
    by (auto simp: hill_mat_def bind_res_Inr)
  from map_res_Inr [OF rows] assms(2)
  have row: "map_res (hill_entry k_pow n) (x ! c) = Inr (h ! c)" by simp
  from map_res_Inr [OF row] assms(3)
  have "length (h ! c) = length (x ! c)" "hill_entry k_pow n (x ! c ! s) = Inr (h ! c ! s)"
    by simp_all
  then show ?thesis using kp by (simp add: hill_def)
qed

text \<open>
  C5. In every per-step update, the regulatory input to a gene \<open>t\<close> of a cell is the sum
  over the source genes \<open>s\<close> of \<open>hill(x)[s]\<close> times the accumulated weight of the edges
  from \<open>s\<close> to \<open>t\<close>: although the adjacency is stored with the destination as row and is
  transposed before use, the update realises the source-regulates-target reading of
  the construction rules.
\<close>

theorem regulatory_input_follows_edges:
  assumes "groups_ok gene_names grp" and "0 < n_lineages" and "distinct gene_names"
    and "hill_mat x hill_k hill_n = Inr h"
    and "c < length x" and "length (x ! c) = length gene_names" and "t < length gene_names"
  shows "\<exists>net g'. build_grn g gene_names grp n_lineages lineage_tfs_per = Inr (net, g')
    \<and> (\<forall>s<length gene_names. hill (x ! c ! s) hill_k hill_n = Inr (h ! c ! s))
    \<and> regulatory_input h net ! c ! t
        = (\<Sum>s<length gene_names.
             h ! c ! s * edge_weight_sum gene_names (grn_edges net) s t)"
proof -
  let ?n = "length gene_names"
  have n: "0 < ?n" using assms(7) by (cases gene_names) simp_all
  from build_grn_adjacency [OF assms(1,2,3) n, of g lineage_tfs_per]
  obtain net g' where run: "build_grn g gene_names grp n_lineages lineage_tfs_per = Inr (net, g')"
    and lb: "length (grn_bias net) = ?n" and lw: "length (grn_W net) = ?n"
    and ent: "\<forall>s<?n. \<forall>t<?n. grn_W net ! t ! s = edge_weight_sum gene_names (grn_edges net) s t"
    by blast
  have lh: "length h = length x" using assms(4) by (rule hill_mat_length)
  have hc: "length (h ! c) = ?n"
  proof (cases "x ! c")
    case Nil
    then show ?thesis using assms(6) n by simp
  next
    case (Cons a as)
    then have "0 < length (x ! c)" by simp
    from hill_mat_entry [OF assms(4,5) this] assms(6) show ?thesis by simp
  qed
  have hv: "\<forall>s<?n. hill (x ! c ! s) hill_k hill_n = Inr (h ! c ! s)"
    using hill_mat_entry [OF assms(4,5)] assms(6) by simp
  have "regulatory_input h net ! c ! t
      = (\<Sum>s<length (dense_transpose ?n (grn_W net)).
            h ! c ! s * dense_transpose ?n (grn_W net) ! s ! t)"
    unfolding regulatory_input_def Let_def lb
    using assms(5,7) lh hc by (intro matmul_nth) (simp_all add: dense_transpose_length)
  also have "\<dots> = (\<Sum>s<?n. h ! c ! s * grn_W net ! t ! s)"
    using assms(7) lw by (simp add: dense_transpose_length dense_transpose_nth)
  also have "\<dots> = (\<Sum>s<?n. h ! c ! s * edge_weight_sum gene_names (grn_edges net) s t)"
    using ent assms(7) by simp
  finally show ?thesis using run hv by blast
qed

theorem regulatory_input_follows_edges_witness:
  "groups_ok (fst build_gene_names) (snd build_gene_names) \<and> 0 < main_n_lineages
   \<and> distinct (fst build_gene_names)
   \<and> (\<exists>h. hill_mat [replicate 200 1] 1 2 = Inr h
        \<and> (\<exists>net g'. build_grn zero_rng (fst build_gene_names) (snd build_gene_names)
                        main_n_lineages main_lineage_tfs_per = Inr (net, g')
             \<and> regulatory_input h net ! 0 ! 4
                 = (\<Sum>s<length (fst build_gene_names).
                      h ! 0 ! s * edge_weight_sum (fst build_gene_names) (grn_edges net) s 4)))"
proof -
  have nl: "(0::nat) < main_n_lineages" by (simp add: main_n_lineages_def)
  have "\<exists>h. hill_mat [replicate 200 1] 1 2 = Inr h"
    by (rule hill_mat_total) simp_all
  then obtain h where h: "hill_mat [replicate 200 1] 1 2 = Inr h" by (elim exE)
  have c: "0 < length [replicate 200 (1::real)]" by simp
  have l: "length ([replicate 200 (1::real)] ! 0) = length (fst build_gene_names)"
    by (simp add: build_gene_names_length)
  have t: "4 < length (fst build_gene_names)" by (simp add: build_gene_names_length)
  note th = regulatory_input_follows_edges [OF main_groups_ok nl names_distinct h c l t,
      of zero_rng main_lineage_tfs_per]
  from th have inner: "\<exists>net g'. build_grn zero_rng (fst build_gene_names) (snd build_gene_names)
                        main_n_lineages main_lineage_tfs_per = Inr (net, g')
             \<and> regulatory_input h net ! 0 ! 4
                 = (\<Sum>s<length (fst build_gene_names).
                      h ! 0 ! s * edge_weight_sum (fst build_gene_names) (grn_edges net) s 4)"
    by blast
  from h inner have "\<exists>h. hill_mat [replicate 200 1] 1 2 = Inr h
        \<and> (\<exists>net g'. build_grn zero_rng (fst build_gene_names) (snd build_gene_names)
                        main_n_lineages main_lineage_tfs_per = Inr (net, g')
             \<and> regulatory_input h net ! 0 ! 4
                 = (\<Sum>s<length (fst build_gene_names).
                      h ! 0 ! s * edge_weight_sum (fst build_gene_names) (grn_edges net) s 4))"
    by blast
  with main_groups_ok nl names_distinct show ?thesis by (intro conjI)
qed

end
